theory Spec2Isabelle
  imports Main "HOL-Library.Word"
begin

unbundle bit_operations_syntax

section \<open>The watering controller of main.c\<close>

text \<open>
  The program runs on an MSP430G2553. A C \<open>int\<close> is 16 bits wide there, the port
  registers \<open>P1OUT\<close>, \<open>P2OUT\<close> and \<open>ADC10AE0\<close> are 8 bits wide, the ADC control
  registers 16 bits. Signed comparisons of the source are \<open><s\<close> and \<open>\<le>s\<close> on
  words; \<open>counter++\<close> wraps around at 16 bits (what the MSP430 compilers emit; it matters
  only after 32767 iterations of the calibration loop).
\<close>

type_synonym cint = "16 word"

subsection \<open>Constants\<close>

definition MOISTURE_MIN :: cint where "MOISTURE_MIN = 200"
definition MOISTURE_MAX :: cint where "MOISTURE_MAX = 600"
definition MAX_TRAVEL :: cint where "MAX_TRAVEL = 5"
definition SOAK_TIME :: cint where "SOAK_TIME = 3"

text \<open>Bit masks and ADC10 fields of the device header \<open>msp430.h\<close>.\<close>

definition BIT0 :: cint where "BIT0 = 0x0001"
definition BIT1 :: cint where "BIT1 = 0x0002"
definition BIT2 :: cint where "BIT2 = 0x0004"
definition BIT3 :: cint where "BIT3 = 0x0008"
definition BIT4 :: cint where "BIT4 = 0x0010"
definition BIT5 :: cint where "BIT5 = 0x0020"
definition INCH_1 :: cint where "INCH_1 = 0x1000"
definition INCH_3 :: cint where "INCH_3 = 0x3000"
definition INCH_5 :: cint where "INCH_5 = 0x5000"
definition ENC :: cint where "ENC = 0x0002"
definition ADC10SC :: cint where "ADC10SC = 0x0001"
definition ADC10DIV_7 :: cint where "ADC10DIV_7 = 0x00E0"
definition ADC10SHT_1 :: cint where "ADC10SHT_1 = 0x0800"
definition ADC10ON :: cint where "ADC10ON = 0x0010"
definition ADC10IE :: cint where "ADC10IE = 0x0008"
definition WDTPW :: cint where "WDTPW = 0x5A00"
definition WDTHOLD :: cint where "WDTHOLD = 0x0080"

named_theorems hw_defs

lemmas consts_unfold [hw_defs] =
  MOISTURE_MIN_def MOISTURE_MAX_def MAX_TRAVEL_def SOAK_TIME_def
  BIT0_def BIT1_def BIT2_def BIT3_def BIT4_def BIT5_def
  INCH_1_def INCH_3_def INCH_5_def ENC_def ADC10SC_def
  ADC10DIV_7_def ADC10SHT_1_def ADC10ON_def ADC10IE_def WDTPW_def WDTHOLD_def

subsection \<open>Data\<close>

record plantProperty =
  enableADC :: cint
  selectADC :: cint
  sampleADC :: cint
  activateSolenoid :: cint
  travelTime :: cint

text \<open>
  The three structs live in the stack frame of \<open>main\<close>; a \<open>struct plantProperty *\<close>
  is the name of one of them.
\<close>

datatype station = Plant1 | Plant2 | Plant3

text \<open>
  What an observer of the board sees, in the order in which it happens. The log is
  written by the model only; no function reads it.
\<close>

datatype event =
    Out1 "8 word"          \<comment> \<open>\<open>P1OUT\<close> written, with the new value\<close>
  | Out2 "8 word"          \<comment> \<open>\<open>P2OUT\<close> written, with the new value\<close>
  | Wait nat               \<comment> \<open>\<open>delay\<close> returned after that many one-second ticks\<close>
  | WaitMs nat             \<comment> \<open>\<open>msdelay\<close> returned after that many short ticks\<close>
  | Sample cint            \<comment> \<open>\<open>ADC10MEM\<close> read by \<open>checkMoisture\<close>\<close>
  | Sense station          \<comment> \<open>\<open>plantState\<close> entered\<close>
  | Calibrate station      \<comment> \<open>\<open>preWaterPlant\<close> entered\<close>
  | Dose station cint      \<comment> \<open>\<open>waterPlant\<close> entered, with its \<open>waterTime\<close>\<close>
  | Alarm                  \<comment> \<open>the \<open>while(1)\<close> of \<open>preWaterPlant\<close> entered\<close>
  | Sleep cint             \<comment> \<open>\<open>hdelay\<close> entered, with its argument\<close>

text \<open>
  The machine state: the registers the program writes after start-up, the number of ADC
  conversions made so far, the elapsed ticks, the three structs and the log. The clock
  and timer registers only fix the length of a tick and are left out; a tick is one
  wake-up from the low-power mode by the timer interrupt, a conversion one wake-up by the
  ADC interrupt. The interrupt enable bit is not modelled: both waits are blocking calls.
\<close>

record mcu =
  WDTCTL :: "16 word"
  P1DIR :: "8 word"
  P1OUT :: "8 word"
  P2DIR :: "8 word"
  P2OUT :: "8 word"
  ADC10CTL0 :: "16 word"
  ADC10CTL1 :: "16 word"
  ADC10AE0 :: "8 word"
  conversions :: nat
  elapsed_s :: nat
  elapsed_ms :: nat
  ram :: "station \<Rightarrow> plantProperty"
  trace :: "event list"

text \<open>
  Where control is when a run is cut off after a bounded number of loop iterations.
\<close>

datatype place = CalibrationLoop | AlarmLoop | MainLoop

datatype 'a outcome = Returned 'a | Unfinished place mcu

subsection \<open>Port writes and the log\<close>

definition emit :: "event \<Rightarrow> mcu \<Rightarrow> mcu" where
  "emit e s = s\<lparr>trace := trace s @ [e]\<rparr>"

definition setP1OUT :: "8 word \<Rightarrow> mcu \<Rightarrow> mcu" where
  "setP1OUT v s = emit (Out1 v) (s\<lparr>P1OUT := v\<rparr>)"

definition setP2OUT :: "8 word \<Rightarrow> mcu \<Rightarrow> mcu" where
  "setP2OUT v s = emit (Out2 v) (s\<lparr>P2OUT := v\<rparr>)"

subsection \<open>disableWatchdog, initialize\<close>

definition disableWatchdog :: "mcu \<Rightarrow> mcu" where
  "disableWatchdog s = s\<lparr>WDTCTL := WDTPW + WDTHOLD\<rparr>"

definition initialize :: "mcu \<Rightarrow> mcu" where
  "initialize s =
     (let s1 = s\<lparr>P1DIR := P1DIR s OR 0x15\<rparr>;
          s2 = setP1OUT (P1OUT s1 AND ucast (NOT (BIT0 + BIT2 + BIT4))) s1;
          s3 = s2\<lparr>P2DIR := P2DIR s2 OR 0x0F\<rparr>;
          s4 = setP2OUT (P2OUT s3 AND ucast (NOT (BIT0 + BIT1 + BIT2 + BIT3))) s3;
          s5 = s4\<lparr>ADC10CTL1 := ADC10CTL1 s4 OR ADC10DIV_7\<rparr>
      in s5\<lparr>ADC10CTL0 := ADC10SHT_1 + ADC10ON + ADC10IE\<rparr>)"

subsection \<open>Delays\<close>

text \<open>
  Each pass of a delay loop programs the timer and sleeps until its interrupt: one tick.
  The loops count an \<open>int\<close> down while it is positive.
\<close>

function msdelay_loop :: "cint \<Rightarrow> mcu \<Rightarrow> mcu" where
  "msdelay_loop i s =
     (if 0 <s i then msdelay_loop (i - 1) (s\<lparr>elapsed_ms := Suc (elapsed_ms s)\<rparr>) else s)"
  by pat_completeness auto
termination
proof (relation "measure (\<lambda>(i, s). nat (sint i))")
  show "wf (measure (\<lambda>(i :: cint, s :: mcu). nat (sint i)))" by simp
next
  fix i :: cint and s :: mcu
  assume "0 <s i"
  then have pos: "0 < sint i" by (simp add: word_sless_alt)
  have "sint i < 2 ^ 15" using sint_lt [of i] by simp
  with pos have "signed_take_bit 15 (sint i - 1) = sint i - 1"
    by (simp add: signed_take_bit_int_eq_self_iff)
  then have "sint (i - 1) = sint i - 1" by (simp add: sint_word_diff)
  with pos
  show "((i - 1, s\<lparr>elapsed_ms := Suc (elapsed_ms s)\<rparr>), i, s) \<in> measure (\<lambda>(i, s). nat (sint i))"
    by simp
qed

function delay_loop :: "cint \<Rightarrow> mcu \<Rightarrow> mcu" where
  "delay_loop i s =
     (if 0 <s i then delay_loop (i - 1) (s\<lparr>elapsed_s := Suc (elapsed_s s)\<rparr>) else s)"
  by pat_completeness auto
termination
proof (relation "measure (\<lambda>(i, s). nat (sint i))")
  show "wf (measure (\<lambda>(i :: cint, s :: mcu). nat (sint i)))" by simp
next
  fix i :: cint and s :: mcu
  assume "0 <s i"
  then have pos: "0 < sint i" by (simp add: word_sless_alt)
  have "sint i < 2 ^ 15" using sint_lt [of i] by simp
  with pos have "signed_take_bit 15 (sint i - 1) = sint i - 1"
    by (simp add: signed_take_bit_int_eq_self_iff)
  then have "sint (i - 1) = sint i - 1" by (simp add: sint_word_diff)
  with pos
  show "((i - 1, s\<lparr>elapsed_s := Suc (elapsed_s s)\<rparr>), i, s) \<in> measure (\<lambda>(i, s). nat (sint i))"
    by simp
qed

declare msdelay_loop.simps [simp del] delay_loop.simps [simp del]

text \<open>The log records how many ticks the call took, read off the tick counters.\<close>

definition msdelay :: "cint \<Rightarrow> mcu \<Rightarrow> mcu" where
  "msdelay mseconds s =
     (let s' = msdelay_loop mseconds s in emit (WaitMs (elapsed_ms s' - elapsed_ms s)) s')"

definition delay :: "cint \<Rightarrow> mcu \<Rightarrow> mcu" where
  "delay seconds s =
     (let s' = delay_loop seconds s in emit (Wait (elapsed_s s' - elapsed_s s)) s')"

function hdelay_loop :: "cint \<Rightarrow> mcu \<Rightarrow> mcu" where
  "hdelay_loop i s = (if 0 <s i then hdelay_loop (i - 1) (delay 3600 s) else s)"
  by pat_completeness auto
termination
proof (relation "measure (\<lambda>(i, s). nat (sint i))")
  show "wf (measure (\<lambda>(i :: cint, s :: mcu). nat (sint i)))" by simp
next
  fix i :: cint and s :: mcu
  assume "0 <s i"
  then have pos: "0 < sint i" by (simp add: word_sless_alt)
  have "sint i < 2 ^ 15" using sint_lt [of i] by simp
  with pos have "signed_take_bit 15 (sint i - 1) = sint i - 1"
    by (simp add: signed_take_bit_int_eq_self_iff)
  then have "sint (i - 1) = sint i - 1" by (simp add: sint_word_diff)
  with pos
  show "((i - 1, delay 3600 s), i, s) \<in> measure (\<lambda>(i, s). nat (sint i))"
    by simp
qed

declare hdelay_loop.simps [simp del]

definition hdelay :: "cint \<Rightarrow> mcu \<Rightarrow> mcu" where
  "hdelay hours s = hdelay_loop hours (emit (Sleep hours) s)"

subsection \<open>The moisture sensor\<close>

definition initializeADC :: "station \<Rightarrow> mcu \<Rightarrow> mcu" where
  "initializeADC ptr_plant s =
     (let s1 = setP1OUT (P1OUT s OR ucast (enableADC (ram s ptr_plant))) s;
          s2 = s1\<lparr>ADC10CTL1 := ADC10CTL1 s1 OR selectADC (ram s1 ptr_plant)\<rparr>;
          s3 = s2\<lparr>ADC10AE0 := ADC10AE0 s2 OR ucast (sampleADC (ram s2 ptr_plant))\<rparr>
      in msdelay 500 s3)"

definition deinitializeADC :: "station \<Rightarrow> mcu \<Rightarrow> mcu" where
  "deinitializeADC ptr_plant s =
     (let s1 = s\<lparr>ADC10CTL0 := ADC10CTL0 s AND NOT ENC\<rparr>;
          s2 = s1\<lparr>ADC10CTL1 := ADC10CTL1 s1 AND NOT (selectADC (ram s1 ptr_plant))\<rparr>;
          s3 = s2\<lparr>ADC10AE0 := ADC10AE0 s2 AND ucast (NOT (sampleADC (ram s2 ptr_plant)))\<rparr>
      in setP1OUT (P1OUT s3 AND ucast (NOT (enableADC (ram s3 ptr_plant)))) s3)"

text \<open>
  The converter is the environment: \<open>adc k\<close> is what \<open>ADC10MEM\<close> holds after the
  \<open>k\<close>-th conversion since start-up, whatever channel is selected. Any sequence of
  samples is such a function.
\<close>

definition checkMoisture :: "(nat \<Rightarrow> cint) \<Rightarrow> mcu \<Rightarrow> cint \<times> mcu" where
  "checkMoisture adc s =
     (let s1 = s\<lparr>ADC10CTL0 := ADC10CTL0 s OR (ENC + ADC10SC)\<rparr>;
          moisture = adc (conversions s1);
          s2 = emit (Sample moisture) (s1\<lparr>conversions := Suc (conversions s1)\<rparr>)
      in (moisture, s2))"

subsection \<open>preWaterPlant\<close>

text \<open>
  The calibration loop may run for ever, so it is run for at most \<open>n\<close> passes of its
  body: \<open>Returned\<close> is the loop's exit with the final state, \<open>moisture\<close> and
  \<open>counter\<close>; \<open>Unfinished CalibrationLoop\<close> says that the condition still held
  after \<open>n\<close> passes.
\<close>

fun cal_loop :: "nat \<Rightarrow> (nat \<Rightarrow> cint) \<Rightarrow> mcu \<Rightarrow> cint \<Rightarrow> cint \<Rightarrow> (mcu \<times> cint \<times> cint) outcome" where
  "cal_loop 0 adc s moisture counter =
     (if moisture <s MOISTURE_MAX \<or> counter <s MAX_TRAVEL
      then Unfinished CalibrationLoop s
      else Returned (s, moisture, counter))"
| "cal_loop (Suc n) adc s moisture counter =
     (if moisture <s MOISTURE_MAX \<or> counter <s MAX_TRAVEL
      then (let s1 = setP2OUT (P2OUT s OR ucast BIT3) s;
                s2 = delay 1 s1;
                (moisture', s3) = checkMoisture adc s2
            in cal_loop n adc s3 moisture' (counter + 1))
      else Returned (s, moisture, counter))"

text \<open>
  The \<open>while(1)\<close> has no exit: \<open>alarm_loop n s\<close> is the state after \<open>n\<close> passes of
  its body.
\<close>

fun alarm_loop :: "nat \<Rightarrow> mcu \<Rightarrow> mcu" where
  "alarm_loop 0 s = s"
| "alarm_loop (Suc n) s =
     (let s1 = setP1OUT (P1OUT s OR ucast (BIT0 + BIT2 + BIT4)) s;
          s2 = delay 1 s1;
          s3 = setP1OUT (P1OUT s2 AND ucast (NOT (BIT0 + BIT2 + BIT4))) s2;
          s4 = delay 1 s3
      in alarm_loop n s4)"

definition preWaterPlant :: "nat \<Rightarrow> (nat \<Rightarrow> cint) \<Rightarrow> station \<Rightarrow> mcu \<Rightarrow> mcu outcome" where
  "preWaterPlant fuel adc ptr_plant s =
     (let (moisture, s1) = checkMoisture adc (emit (Calibrate ptr_plant) s);
          counter = 0;
          s2 = setP2OUT (P2OUT s1 OR ucast (activateSolenoid (ram s1 ptr_plant))) s1;
          s3 = delay 1 s2
      in case cal_loop fuel adc s3 moisture counter of
           Unfinished pl st \<Rightarrow> Unfinished pl st
         | Returned (s4, moisture', counter') \<Rightarrow>
             if MAX_TRAVEL \<le>s counter'
             then Unfinished AlarmLoop (alarm_loop fuel (emit Alarm s4))
             else (let s5 = setP2OUT (P2OUT s4 AND ucast (NOT BIT3)) s4;
                       s6 = delay 2 s5;
                       s7 = setP2OUT (P2OUT s6 AND ucast (NOT (activateSolenoid (ram s6 ptr_plant)))) s6
                   in Returned (s7\<lparr>ram := (ram s7)
                        (ptr_plant := (ram s7 ptr_plant)\<lparr>travelTime := counter'\<rparr>)\<rparr>)))"

subsection \<open>waterPlant\<close>

definition waterPlant :: "station \<Rightarrow> mcu \<Rightarrow> mcu" where
  "waterPlant ptr_plant s =
     (let waterTime = travelTime (ram s ptr_plant) + SOAK_TIME;
          s1 = setP2OUT (P2OUT s OR ucast (activateSolenoid (ram s ptr_plant)))
                 (emit (Dose ptr_plant waterTime) s);
          s2 = delay 1 s1;
          s3 = setP2OUT (P2OUT s2 OR ucast BIT3) s2;
          s4 = delay waterTime s3;
          s5 = setP2OUT (P2OUT s4 AND ucast (NOT BIT3)) s4;
          s6 = delay 2 s5
      in setP2OUT (P2OUT s6 AND ucast (NOT (activateSolenoid (ram s6 ptr_plant)))) s6)"

subsection \<open>plantState\<close>

definition plantState :: "nat \<Rightarrow> (nat \<Rightarrow> cint) \<Rightarrow> station \<Rightarrow> mcu \<Rightarrow> mcu outcome" where
  "plantState fuel adc ptr_plant s =
     (let s1 = initializeADC ptr_plant (emit (Sense ptr_plant) s);
          (moisture, s2) = checkMoisture adc s1
      in if moisture <s MOISTURE_MIN
         then (case preWaterPlant fuel adc ptr_plant s2 of
                 Unfinished pl st \<Rightarrow> Unfinished pl st
               | Returned s3 \<Rightarrow>
                   Returned (deinitializeADC ptr_plant
                     (waterPlant ptr_plant (waterPlant ptr_plant (delay 60 s3)))))
         else Returned (deinitializeADC ptr_plant (waterPlant ptr_plant s2)))"

subsection \<open>main\<close>

definition plant1 :: plantProperty where
  "plant1 = \<lparr>enableADC = BIT0, selectADC = INCH_1, sampleADC = BIT1,
             activateSolenoid = BIT0, travelTime = 0\<rparr>"

definition plant2 :: plantProperty where
  "plant2 = \<lparr>enableADC = BIT2, selectADC = INCH_3, sampleADC = BIT3,
             activateSolenoid = BIT1, travelTime = 0\<rparr>"

definition plant3 :: plantProperty where
  "plant3 = \<lparr>enableADC = BIT4, selectADC = INCH_5, sampleADC = BIT5,
             activateSolenoid = BIT2, travelTime = 0\<rparr>"

fun plants :: "station \<Rightarrow> plantProperty" where
  "plants Plant1 = plant1"
| "plants Plant2 = plant2"
| "plants Plant3 = plant3"

text \<open>
  One pass of the body of the outer \<open>while(1)\<close>: the three stations, then the sleep.
\<close>

definition cycle :: "nat \<Rightarrow> (nat \<Rightarrow> cint) \<Rightarrow> mcu \<Rightarrow> mcu outcome" where
  "cycle fuel adc s =
     (case plantState fuel adc Plant1 s of
        Unfinished pl st \<Rightarrow> Unfinished pl st
      | Returned s1 \<Rightarrow>
          (case plantState fuel adc Plant2 s1 of
             Unfinished pl st \<Rightarrow> Unfinished pl st
           | Returned s2 \<Rightarrow>
               (case plantState fuel adc Plant3 s2 of
                  Unfinished pl st \<Rightarrow> Unfinished pl st
                | Returned s3 \<Rightarrow> Returned (hdelay 48 s3))))"

text \<open>
  The outer loop, cut off after \<open>n\<close> passes; every inner loop is cut off after
  \<open>fuel\<close> passes.
\<close>

fun main_loop :: "nat \<Rightarrow> nat \<Rightarrow> (nat \<Rightarrow> cint) \<Rightarrow> mcu \<Rightarrow> mcu outcome" where
  "main_loop 0 fuel adc s = Unfinished MainLoop s"
| "main_loop (Suc n) fuel adc s =
     (case cycle fuel adc s of
        Unfinished pl st \<Rightarrow> Unfinished pl st
      | Returned s' \<Rightarrow> main_loop n fuel adc s')"

definition main :: "nat \<Rightarrow> (nat \<Rightarrow> cint) \<Rightarrow> mcu \<Rightarrow> mcu outcome" where
  "main fuel adc s =
     (let s1 = initialize (disableWatchdog s);
          s2 = s1\<lparr>ram := plants\<rparr>
      in main_loop fuel fuel adc s2)"

text \<open>
  A start state for examples: every register cleared, nothing logged. (The claims below
  are proved for every start state.)
\<close>

definition cleared :: mcu where
  "cleared = \<lparr>WDTCTL = 0, P1DIR = 0, P1OUT = 0, P2DIR = 0, P2OUT = 0, ADC10CTL0 = 0,
     ADC10CTL1 = 0, ADC10AE0 = 0, conversions = 0, elapsed_s = 0, elapsed_ms = 0,
     ram = plants, trace = []\<rparr>"

subsection \<open>Vocabulary of the claims\<close>

text \<open>
  The calibration loop as the specification describes it. When the loop is reached in
  state \<open>s\<close> with \<open>moisture\<close> and \<open>counter\<close>, the dryness it tests before pass
  \<open>k + 1\<close> is the initial one for \<open>k = 0\<close> and the \<open>k\<close>-th sample taken from \<open>s\<close> on
  otherwise; the step counter is then \<open>counter + k\<close>. \<open>continues\<close> is the
  continuation condition in the specification's words: dryness below the wet threshold
  or step counter below the bound.
\<close>

definition sampled :: "(nat \<Rightarrow> cint) \<Rightarrow> mcu \<Rightarrow> cint \<Rightarrow> nat \<Rightarrow> cint" where
  "sampled adc s moisture k = (if k = 0 then moisture else adc (conversions s + k - 1))"

definition continues :: "(nat \<Rightarrow> cint) \<Rightarrow> mcu \<Rightarrow> cint \<Rightarrow> cint \<Rightarrow> nat \<Rightarrow> bool" where
  "continues adc s moisture counter k =
     (sampled adc s moisture k <s MOISTURE_MAX \<or> counter + of_nat k <s MAX_TRAVEL)"

text \<open>
  The state in which a bounded run stops: the one returned, or the one in which it was
  cut off.
\<close>

fun final :: "mcu outcome \<Rightarrow> mcu" where
  "final (Returned s) = s"
| "final (Unfinished pl s) = s"

fun loop_final :: "(mcu \<times> cint \<times> cint) outcome \<Rightarrow> mcu" where
  "loop_final (Returned (s, moisture, counter)) = s"
| "loop_final (Unfinished pl s) = s"

text \<open>
  One pass of the body of the calibration loop on the machine state (the pass also
  increments \<open>counter\<close>), one pass of the body of the alarm loop, and the statements of
  \<open>preWaterPlant\<close> before its first loop.
\<close>

definition cal_pass :: "(nat \<Rightarrow> cint) \<Rightarrow> mcu \<Rightarrow> mcu" where
  "cal_pass adc s = snd (checkMoisture adc (delay 1 (setP2OUT (P2OUT s OR ucast BIT3) s)))"

definition alarm_pass :: "mcu \<Rightarrow> mcu" where
  "alarm_pass s =
     (let s1 = setP1OUT (P1OUT s OR ucast (BIT0 + BIT2 + BIT4)) s;
          s2 = delay 1 s1;
          s3 = setP1OUT (P1OUT s2 AND ucast (NOT (BIT0 + BIT2 + BIT4))) s2
      in delay 1 s3)"

definition pre_start :: "(nat \<Rightarrow> cint) \<Rightarrow> station \<Rightarrow> mcu \<Rightarrow> mcu" where
  "pre_start adc ptr_plant s =
     (let s1 = snd (checkMoisture adc (emit (Calibrate ptr_plant) s))
      in delay 1 (setP2OUT (P2OUT s1 OR ucast (activateSolenoid (ram s1 ptr_plant))) s1))"

text \<open>The statements of \<open>plantState\<close> up to and including its moisture reading.\<close>

definition sensed :: "(nat \<Rightarrow> cint) \<Rightarrow> station \<Rightarrow> mcu \<Rightarrow> mcu" where
  "sensed adc ptr_plant s = snd (checkMoisture adc (initializeADC ptr_plant (emit (Sense ptr_plant) s)))"

text \<open>
  The valve outputs are \<open>P2.0\<close>, \<open>P2.1\<close>, \<open>P2.2\<close> (one per station) and \<open>P2.3\<close>
  (the shared line); an output that is high energizes its valve. \<open>open_valves v\<close> lists
  the valve outputs that are high when \<open>P2OUT\<close> holds \<open>v\<close>. \<open>valves_closed\<close>: none is
  high. \<open>valves_exclusive\<close>: at most one station valve is open, and the shared-line valve
  is open only together with a station valve.
\<close>

definition open_valves :: "8 word \<Rightarrow> nat list" where
  "open_valves v = filter (bit v) [0, 1, 2, 3]"

definition valves_closed :: "8 word \<Rightarrow> bool" where
  "valves_closed v = (open_valves v = [])"

definition valves_exclusive :: "8 word \<Rightarrow> bool" where
  "valves_exclusive v =
     (length (filter (bit v) [0, 1, 2]) \<le> 1 \<and> (bit v 3 \<longrightarrow> bit v 0 \<or> bit v 1 \<or> bit v 2))"

text \<open>
  \<open>valve_safe s t\<close>: the log of \<open>t\<close> continues that of \<open>s\<close>, and every value
  written to \<open>P2OUT\<close> since \<open>s\<close> keeps the valves exclusive.
\<close>

definition valve_safe :: "mcu \<Rightarrow> mcu \<Rightarrow> bool" where
  "valve_safe s t =
     (\<exists>tr. trace t = trace s @ tr \<and> (\<forall>v. Out2 v \<in> set tr \<longrightarrow> valves_exclusive v))"

text \<open>A dose is a call of \<open>waterPlant\<close>.\<close>

fun is_dose :: "event \<Rightarrow> bool" where
  "is_dose (Dose p w) = True"
| "is_dose e = False"

text \<open>
  The order of service, read off the log. \<open>in_order cur shut es\<close> checks the events
  \<open>es\<close>, where \<open>cur\<close> is the station in service (\<open>None\<close> before the first station of a
  round) and \<open>shut\<close> says that the last value written to \<open>P2OUT\<close> had all valve
  outputs low:
  \<^item> \<open>plantState\<close> is entered for station 1 at the start of a round, for station 2
    after station 1 and for station 3 after station 2, and only with all valves shut;
  \<^item> \<open>hdelay\<close> is entered only after station 3, with all valves shut and with the
    argument 48, and it ends the round;
  \<^item> a value written to \<open>P2OUT\<close> while a station is in service has no other station's
    valve output high, and one written between rounds has no valve output high.
  \<open>turn\<close> and \<open>shuts\<close> are the changes of \<open>cur\<close> and \<open>shut\<close> by one event.
\<close>

fun valve_bit :: "station \<Rightarrow> nat" where
  "valve_bit Plant1 = 0"
| "valve_bit Plant2 = 1"
| "valve_bit Plant3 = 2"

definition serves :: "station \<Rightarrow> 8 word \<Rightarrow> bool" where
  "serves p v = (set (filter (bit v) [0, 1, 2]) \<subseteq> {valve_bit p})"

fun follows :: "station option \<Rightarrow> station \<Rightarrow> bool" where
  "follows None p = (p = Plant1)"
| "follows (Some Plant1) p = (p = Plant2)"
| "follows (Some Plant2) p = (p = Plant3)"
| "follows (Some Plant3) p = False"

fun turn :: "station option \<Rightarrow> event \<Rightarrow> station option" where
  "turn cur (Sense p) = Some p"
| "turn cur (Sleep h) = None"
| "turn cur e = cur"

fun shuts :: "bool \<Rightarrow> event \<Rightarrow> bool" where
  "shuts shut (Out2 v) = valves_closed v"
| "shuts shut e = shut"

fun admits :: "station option \<Rightarrow> bool \<Rightarrow> event \<Rightarrow> bool" where
  "admits cur shut (Sense p) = (shut \<and> follows cur p)"
| "admits cur shut (Sleep h) = (shut \<and> cur = Some Plant3 \<and> h = 48)"
| "admits cur shut (Out2 v) = (case cur of None \<Rightarrow> valves_closed v | Some p \<Rightarrow> serves p v)"
| "admits cur shut e = True"

fun in_order :: "station option \<Rightarrow> bool \<Rightarrow> event list \<Rightarrow> bool" where
  "in_order cur shut [] = True"
| "in_order cur shut (e # es) = (admits cur shut e \<and> in_order (turn cur e) (shuts shut e) es)"

text \<open>
  \<open>service s cur shut t\<close>: the log of \<open>t\<close> continues that of \<open>s\<close>, what was logged since
  \<open>s\<close> is in order, and it leaves station \<open>cur\<close> in service; if \<open>shut\<close> is set, moreover
  all valve outputs are low in \<open>t\<close>, by the last write to \<open>P2OUT\<close>.
\<close>

definition service :: "mcu \<Rightarrow> station option \<Rightarrow> bool \<Rightarrow> mcu \<Rightarrow> bool" where
  "service s cur shut t =
     (\<exists>tr. trace t = trace s @ tr \<and> in_order None False tr \<and> foldl turn None tr = cur \<and>
        (shut \<longrightarrow> foldl shuts False tr \<and> valves_closed (P2OUT t)))"

text \<open>The events that start the service of a station or the sleep.\<close>

fun scheduling :: "event \<Rightarrow> bool" where
  "scheduling (Sense p) = True"
| "scheduling (Sleep h) = True"
| "scheduling e = False"

text \<open>
  \<open>port2 v es\<close>: what \<open>P2OUT\<close> holds after the events \<open>es\<close> when it held \<open>v\<close> before
  them: the value of the last write among them, or \<open>v\<close> if there is none.
  \<open>replays s t\<close>: the log of \<open>t\<close> continues that of \<open>s\<close>, and \<open>P2OUT\<close> in \<open>t\<close> is what
  the writes logged since \<open>s\<close> make of \<open>P2OUT\<close> in \<open>s\<close>.
\<close>

fun port2 :: "8 word \<Rightarrow> event list \<Rightarrow> 8 word" where
  "port2 v [] = v"
| "port2 v (Out2 w # es) = port2 w es"
| "port2 v (e # es) = port2 v es"

definition replays :: "mcu \<Rightarrow> mcu \<Rightarrow> bool" where
  "replays s t = (\<exists>tr. trace t = trace s @ tr \<and> P2OUT t = port2 (P2OUT s) tr)"

section \<open>Closed forms of the delays\<close>

lemma sint_pred: "0 <s (i::cint) \<Longrightarrow> sint (i - 1) = sint i - 1"
proof -
  assume "0 <s i"
  then have pos: "0 < sint i" by (simp add: word_sless_alt)
  have "sint i < 2 ^ 15" using sint_lt [of i] by simp
  with pos have "signed_take_bit 15 (sint i - 1) = sint i - 1"
    by (simp add: signed_take_bit_int_eq_self_iff)
  then show ?thesis by (simp add: sint_word_diff)
qed

lemma delay_loop_eq: "delay_loop i s = s\<lparr>elapsed_s := elapsed_s s + nat (sint i)\<rparr>"
proof (induction i s rule: delay_loop.induct)
  case (1 i s)
  show ?case
  proof (cases "0 <s i")
    case True
    then have pos: "0 < sint i" by (simp add: word_sless_alt)
    have "delay_loop i s = delay_loop (i - 1) (s\<lparr>elapsed_s := Suc (elapsed_s s)\<rparr>)"
      using True by (subst delay_loop.simps) simp
    also have "\<dots> = s\<lparr>elapsed_s := Suc (elapsed_s s) + nat (sint (i - 1))\<rparr>"
      using 1 [OF True] by simp
    also have "Suc (elapsed_s s) + nat (sint (i - 1)) = elapsed_s s + nat (sint i)"
      using pos sint_pred [OF True] by simp
    finally show ?thesis .
  next
    case False
    then have "sint i \<le> 0" by (simp add: word_sless_alt)
    moreover have "delay_loop i s = s" using False by (subst delay_loop.simps) simp
    ultimately show ?thesis by simp
  qed
qed

lemma msdelay_loop_eq: "msdelay_loop i s = s\<lparr>elapsed_ms := elapsed_ms s + nat (sint i)\<rparr>"
proof (induction i s rule: msdelay_loop.induct)
  case (1 i s)
  show ?case
  proof (cases "0 <s i")
    case True
    then have pos: "0 < sint i" by (simp add: word_sless_alt)
    have "msdelay_loop i s = msdelay_loop (i - 1) (s\<lparr>elapsed_ms := Suc (elapsed_ms s)\<rparr>)"
      using True by (subst msdelay_loop.simps) simp
    also have "\<dots> = s\<lparr>elapsed_ms := Suc (elapsed_ms s) + nat (sint (i - 1))\<rparr>"
      using 1 [OF True] by simp
    also have "Suc (elapsed_ms s) + nat (sint (i - 1)) = elapsed_ms s + nat (sint i)"
      using pos sint_pred [OF True] by simp
    finally show ?thesis .
  next
    case False
    then have "sint i \<le> 0" by (simp add: word_sless_alt)
    moreover have "msdelay_loop i s = s" using False by (subst msdelay_loop.simps) simp
    ultimately show ?thesis by simp
  qed
qed

lemma delay_eq:
  "delay n s = s\<lparr>elapsed_s := elapsed_s s + nat (sint n), trace := trace s @ [Wait (nat (sint n))]\<rparr>"
  by (simp add: delay_def delay_loop_eq emit_def)

lemma msdelay_eq:
  "msdelay n s = s\<lparr>elapsed_ms := elapsed_ms s + nat (sint n), trace := trace s @ [WaitMs (nat (sint n))]\<rparr>"
  by (simp add: msdelay_def msdelay_loop_eq emit_def)

lemma hdelay_loop_eq:
  "hdelay_loop i s = s\<lparr>elapsed_s := elapsed_s s + 3600 * nat (sint i),
      trace := trace s @ replicate (nat (sint i)) (Wait 3600)\<rparr>"
proof (induction i s rule: hdelay_loop.induct)
  case (1 i s)
  show ?case
  proof (cases "0 <s i")
    case True
    then have pos: "0 < sint i" by (simp add: word_sless_alt)
    then obtain k where k: "nat (sint i) = Suc k" by (cases "nat (sint i)") auto
    then have k': "nat (sint (i - 1)) = k" using sint_pred [OF True] by simp
    have "hdelay_loop i s = hdelay_loop (i - 1) (delay 3600 s)"
      using True by (subst hdelay_loop.simps) simp
    also have "\<dots> = (delay 3600 s)\<lparr>elapsed_s := elapsed_s (delay 3600 s) + 3600 * k,
      trace := trace (delay 3600 s) @ replicate k (Wait 3600)\<rparr>"
      using 1 [OF True] k' by simp
    also have "\<dots> = s\<lparr>elapsed_s := elapsed_s s + 3600 * Suc k,
      trace := trace s @ replicate (Suc k) (Wait 3600)\<rparr>"
      by (simp add: delay_eq replicate_append_same)
    finally show ?thesis using k by simp
  next
    case False
    then have "sint i \<le> 0" by (simp add: word_sless_alt)
    moreover have "hdelay_loop i s = s" using False by (subst hdelay_loop.simps) simp
    ultimately show ?thesis by simp
  qed
qed

lemma hdelay_48:
  "hdelay 48 s = s\<lparr>elapsed_s := elapsed_s s + 172800,
      trace := trace s @ Sleep 48 # replicate 48 (Wait 3600)\<rparr>"
  by (simp add: hdelay_def hdelay_loop_eq emit_def)

section \<open>The calibration loop\<close>

text \<open>The straight-line functions unfold to record updates.\<close>

lemmas straight_defs = setP1OUT_def setP2OUT_def emit_def initializeADC_def deinitializeADC_def
  checkMoisture_def waterPlant_def delay_eq msdelay_eq Let_def

lemma cal_loop_stop:
  "\<not> continues adc s m c 0 \<Longrightarrow> cal_loop n adc s m c = Returned (s, m, c)"
  by (cases n) (simp_all add: continues_def sampled_def)

lemma cal_loop_step:
  "continues adc s m c 0 \<Longrightarrow>
   cal_loop (Suc n) adc s m c =
     cal_loop n adc (snd (checkMoisture adc (delay 1 (setP2OUT (P2OUT s OR ucast BIT3) s))))
       (adc (conversions s)) (c + 1)"
  by (simp add: continues_def sampled_def straight_defs)

declare cal_loop.simps [simp del]

lemma body_conversions:
  "conversions (snd (checkMoisture adc (delay 1 (setP2OUT v s)))) = Suc (conversions s)"
  by (simp add: straight_defs)

lemma continues_shift:
  "conversions s' = Suc (conversions s) \<Longrightarrow>
   continues adc s' (adc (conversions s)) (c + 1) j = continues adc s m c (Suc j)"
  by (simp add: continues_def sampled_def add.assoc)

lemma sampled_shift:
  "conversions s' = Suc (conversions s) \<Longrightarrow>
   sampled adc s' (adc (conversions s)) j = sampled adc s m (Suc j)"
  by (simp add: sampled_def)

lemma cal_loop_Returned:
  "cal_loop n adc s m c = Returned (s', m', c') \<Longrightarrow>
   \<exists>k\<le>n. (\<forall>j<k. continues adc s m c j) \<and> \<not> continues adc s m c k \<and>
     m' = sampled adc s m k \<and> c' = c + of_nat k \<and> conversions s' = conversions s + k"
proof (induction n arbitrary: s m c)
  case 0
  then have "\<not> continues adc s m c 0" and "s' = s" "m' = m" "c' = c"
    by (auto simp: continues_def sampled_def cal_loop.simps split: if_splits)
  then show ?case by (auto simp: sampled_def)
next
  case (Suc n)
  show ?case
  proof (cases "continues adc s m c 0")
    case False
    from Suc.prems have "s' = s" "m' = m" "c' = c"
      unfolding cal_loop_stop [OF False] by simp_all
    with False show ?thesis by (intro exI [of _ 0]) (simp add: sampled_def)
  next
    case True
    define s1 where "s1 = snd (checkMoisture adc (delay 1 (setP2OUT (P2OUT s OR ucast BIT3) s)))"
    have cv: "conversions s1 = Suc (conversions s)" by (simp add: s1_def body_conversions)
    from True Suc.prems have "cal_loop n adc s1 (adc (conversions s)) (c + 1) = Returned (s', m', c')"
      by (simp add: cal_loop_step s1_def)
    from Suc.IH [OF this] obtain k where k: "k \<le> n"
      "\<forall>j<k. continues adc s1 (adc (conversions s)) (c + 1) j"
      "\<not> continues adc s1 (adc (conversions s)) (c + 1) k"
      "m' = sampled adc s1 (adc (conversions s)) k" "c' = c + 1 + of_nat k"
      "conversions s' = conversions s1 + k" by blast
    have all: "\<forall>j<Suc k. continues adc s m c j"
    proof (intro allI impI)
      fix j assume "j < Suc k"
      show "continues adc s m c j"
      proof (cases j)
        case 0 with True show ?thesis by simp
      next
        case (Suc i)
        with \<open>j < Suc k\<close> k(2) have "continues adc s1 (adc (conversions s)) (c + 1) i" by simp
        then show ?thesis using continues_shift [OF cv] Suc by simp
      qed
    qed
    show ?thesis
      using k all cv continues_shift [OF cv, of adc c k m] sampled_shift [OF cv, of adc k m]
      by (intro exI [of _ "Suc k"]) (simp add: add.assoc)
  qed
qed

lemma cal_loop_Unfinished:
  "\<forall>j\<le>n. continues adc s m c j \<Longrightarrow>
   \<exists>st. cal_loop n adc s m c = Unfinished CalibrationLoop st \<and> conversions st = conversions s + n"
proof (induction n arbitrary: s m c)
  case 0
  then show ?case by (simp add: continues_def sampled_def cal_loop.simps)
next
  case (Suc n)
  define s1 where "s1 = snd (checkMoisture adc (delay 1 (setP2OUT (P2OUT s OR ucast BIT3) s)))"
  have cv: "conversions s1 = Suc (conversions s)" by (simp add: s1_def body_conversions)
  from Suc.prems have c0: "continues adc s m c 0" by simp
  have "\<forall>j\<le>n. continues adc s1 (adc (conversions s)) (c + 1) j"
    using Suc.prems by (simp add: continues_shift [OF cv, of adc c _ m])
  from Suc.IH [OF this] cv show ?case
    by (simp add: cal_loop_step [OF c0] s1_def)
qed

lemma cal_loop_exits:
  "k \<le> n \<Longrightarrow> \<not> continues adc s m c k \<Longrightarrow> \<exists>r. cal_loop n adc s m c = Returned r"
proof (induction n arbitrary: s m c k)
  case 0
  then have "\<not> continues adc s m c 0" by simp
  then show ?case unfolding cal_loop_stop [OF \<open>\<not> continues adc s m c 0\<close>] by simp
next
  case (Suc n)
  show ?case
  proof (cases "continues adc s m c 0")
    case False
    then show ?thesis unfolding cal_loop_stop [OF False] by simp
  next
    case True
    define s1 where "s1 = snd (checkMoisture adc (delay 1 (setP2OUT (P2OUT s OR ucast BIT3) s)))"
    have cv: "conversions s1 = Suc (conversions s)" by (simp add: s1_def body_conversions)
    from True Suc.prems obtain i where i: "k = Suc i" by (cases k) auto
    with Suc.prems have "i \<le> n" "\<not> continues adc s1 (adc (conversions s)) (c + 1) i"
      by (simp_all add: continues_shift [OF cv, of adc c _ m])
    from Suc.IH [OF this] show ?thesis
      by (simp add: cal_loop_step [OF True] s1_def)
  qed
qed


lemma cal_loop_exit_cond:
  "cal_loop n adc s m c = Returned (s', m', c') \<Longrightarrow> MOISTURE_MAX \<le>s m' \<and> MAX_TRAVEL \<le>s c'"
proof -
  assume "cal_loop n adc s m c = Returned (s', m', c')"
  from cal_loop_Returned [OF this] obtain k where
    "\<not> continues adc s m c k" "m' = sampled adc s m k" "c' = c + of_nat k" by blast
  then show ?thesis by (simp add: continues_def signed.not_less)
qed

lemma cal_loop_step':
  "continues adc s m c 0 \<Longrightarrow>
   cal_loop (Suc n) adc s m c = cal_loop n adc (cal_pass adc s) (adc (conversions s)) (c + 1)"
  by (simp add: cal_loop_step cal_pass_def)

lemma cal_loop_invariant:
  assumes "Q s" and "\<And>t. Q t \<Longrightarrow> Q (cal_pass adc t)"
  shows "Q (loop_final (cal_loop n adc s m c))"
  using assms(1)
proof (induction n arbitrary: s m c)
  case 0
  then show ?case by (simp add: cal_loop.simps)
next
  case (Suc n)
  show ?case
  proof (cases "continues adc s m c 0")
    case True
    from Suc.IH [OF assms(2) [OF Suc.prems]] show ?thesis
      by (simp add: cal_loop_step' [OF True])
  next
    case False
    with Suc.prems show ?thesis by (simp add: cal_loop_stop)
  qed
qed

lemma cal_loop_place:
  "cal_loop n adc s m c = Unfinished pl st \<Longrightarrow> pl = CalibrationLoop"
proof (induction n arbitrary: s m c)
  case 0
  then show ?case by (simp add: cal_loop.simps split: if_splits)
next
  case (Suc n)
  show ?case
  proof (cases "continues adc s m c 0")
    case True
    with Suc.prems Suc.IH show ?thesis by (simp add: cal_loop_step')
  next
    case False
    with Suc.prems show ?thesis by (simp add: cal_loop_stop)
  qed
qed

lemma alarm_loop_Suc: "alarm_loop (Suc n) s = alarm_loop n (alarm_pass s)"
  by (simp add: alarm_pass_def Let_def)

lemma alarm_loop_invariant:
  assumes "Q s" and "\<And>t. Q t \<Longrightarrow> Q (alarm_pass t)"
  shows "Q (alarm_loop n s)"
  using assms(1)
proof (induction n arbitrary: s)
  case 0
  then show ?case by simp
next
  case (Suc n)
  from Suc.IH [OF assms(2) [OF Suc.prems]] show ?case
    by (simp only: alarm_loop_Suc)
qed

lemma preWaterPlant_cases:
  obtains (calibrating) st where
      "preWaterPlant fuel adc p s = Unfinished CalibrationLoop st"
      "cal_loop fuel adc (pre_start adc p s) (adc (conversions s)) 0 = Unfinished CalibrationLoop st"
  | (alarm) s4 m' c' where
      "cal_loop fuel adc (pre_start adc p s) (adc (conversions s)) 0 = Returned (s4, m', c')"
      "preWaterPlant fuel adc p s = Unfinished AlarmLoop (alarm_loop fuel (emit Alarm s4))"
proof (cases "cal_loop fuel adc (pre_start adc p s) (adc (conversions s)) 0")
  case (Returned r)
  obtain s4 m' c' where r: "r = (s4, m', c')" by (cases r)
  from Returned r have "MAX_TRAVEL \<le>s c'" using cal_loop_exit_cond by blast
  with Returned r have "preWaterPlant fuel adc p s = Unfinished AlarmLoop (alarm_loop fuel (emit Alarm s4))"
    by (simp add: preWaterPlant_def pre_start_def checkMoisture_def Let_def emit_def)
  with Returned r show ?thesis using alarm by blast
next
  case (Unfinished pl st)
  have "pl = CalibrationLoop" using Unfinished by (rule cal_loop_place)
  with Unfinished have "preWaterPlant fuel adc p s = Unfinished CalibrationLoop st"
    by (simp add: preWaterPlant_def pre_start_def checkMoisture_def Let_def emit_def)
  with Unfinished \<open>pl = CalibrationLoop\<close> show ?thesis using calibrating by blast
qed


text \<open>
  C1. The calibration loop goes on exactly while dryness is below \<open>MOISTURE_MAX\<close> or the
  step counter is below \<open>MAX_TRAVEL\<close>. For every sample sequence \<open>adc\<close>: if the loop
  exits, it does so after some \<open>k\<close> passes, the condition held before each of them and
  fails after the \<open>k\<close>-th, one sample was taken and the counter incremented in each
  pass, and at the exit both \<open>MOISTURE_MAX \<le> moisture\<close> and \<open>MAX_TRAVEL \<le> counter\<close>
  hold; if the condition holds before each of the first \<open>n + 1\<close> tests, the body runs
  \<open>n\<close> times and the loop is still running; and once the condition fails at some test,
  the loop has exited.
\<close>

theorem calibration_loop_condition:
  "(cal_loop n adc s m c = Returned (s', m', c') \<longrightarrow>
      (\<exists>k\<le>n. (\<forall>j<k. continues adc s m c j) \<and> \<not> continues adc s m c k \<and>
         m' = sampled adc s m k \<and> c' = c + of_nat k \<and> conversions s' = conversions s + k) \<and>
      MOISTURE_MAX \<le>s m' \<and> MAX_TRAVEL \<le>s c') \<and>
   ((\<forall>j\<le>n. continues adc s m c j) \<longrightarrow>
      (\<exists>st. cal_loop n adc s m c = Unfinished CalibrationLoop st \<and>
         conversions st = conversions s + n)) \<and>
   ((\<exists>k\<le>n. \<not> continues adc s m c k) \<longrightarrow> (\<exists>r. cal_loop n adc s m c = Returned r))"
  using cal_loop_Returned [of n adc s m c s' m' c'] cal_loop_exit_cond [of n adc s m c s' m' c']
    cal_loop_Unfinished [of n adc s m c] cal_loop_exits [of _ n adc s m c]
  by blast

theorem calibration_loop_condition_witness:
  "(\<exists>s'. cal_loop 8 (\<lambda>i. if i < 2 then 150 else 700) cleared 150 0 = Returned (s', 700, 5) \<and>
      (\<exists>k\<le>8. (\<forall>j<k. continues (\<lambda>i. if i < 2 then 150 else 700) cleared 150 0 j) \<and>
         \<not> continues (\<lambda>i. if i < 2 then 150 else 700) cleared 150 0 k \<and>
         conversions s' = conversions cleared + k)) \<and>
   (continues (\<lambda>i. 150) cleared 150 0 0 \<and> continues (\<lambda>i. 150) cleared 150 0 1 \<and>
    continues (\<lambda>i. 150) cleared 150 0 2 \<and> continues (\<lambda>i. 150) cleared 150 0 3 \<and>
      (\<exists>st. cal_loop 3 (\<lambda>i. 150) cleared 150 0 = Unfinished CalibrationLoop st \<and>
         conversions st = conversions cleared + 3)) \<and>
   ((\<exists>k\<le>8. \<not> continues (\<lambda>i. if i < 2 then 150 else 700) cleared 150 0 k) \<and>
      (\<exists>r. cal_loop 8 (\<lambda>i. if i < 2 then 150 else 700) cleared 150 0 = Returned r))"
proof -
  let ?A = "\<lambda>i::nat. if i < 2 then 150 else 700 :: cint"
  have "\<exists>s'. cal_loop 8 ?A cleared 150 0 = Returned (s', 700, 5)"
    by (simp add: cal_loop.simps straight_defs hw_defs cleared_def eval_nat_numeral)
  then obtain s' where r: "cal_loop 8 ?A cleared 150 0 = Returned (s', 700, 5)" ..
  have dry: "\<forall>j\<le>3. continues (\<lambda>i. 150) cleared 150 0 j"
    by (simp add: continues_def sampled_def hw_defs)
  have "\<not> continues ?A cleared 150 0 5"
    by (simp add: continues_def sampled_def hw_defs cleared_def)
  then have stop: "\<exists>k\<le>8. \<not> continues ?A cleared 150 0 k"
    by (intro exI [of _ 5]) simp
  from dry have "continues (\<lambda>i. 150) cleared 150 0 0" "continues (\<lambda>i. 150) cleared 150 0 1"
    "continues (\<lambda>i. 150) cleared 150 0 2" "continues (\<lambda>i. 150) cleared 150 0 3"
    by simp_all
  with r dry stop show ?thesis
    using calibration_loop_condition [of 8 ?A cleared 150 0 s' 700 5]
      calibration_loop_condition [of 3 "\<lambda>i. 150" cleared 150 0]
    by blast
qed


section \<open>The structure of a run\<close>

lemma preWaterPlant_unfinished: "\<exists>pl st. preWaterPlant fuel adc p s = Unfinished pl st"
  by (rule preWaterPlant_cases [of fuel adc p s]) blast+

lemma preWaterPlant_invariant:
  assumes "Q (pre_start adc p s)" and "\<And>t. Q t \<Longrightarrow> Q (cal_pass adc t)"
    and "\<And>t. Q t \<Longrightarrow> Q (emit Alarm t)" and "\<And>t. Q t \<Longrightarrow> Q (alarm_pass t)"
  shows "Q (final (preWaterPlant fuel adc p s))"
proof (rule preWaterPlant_cases [of fuel adc p s])
  fix st
  assume pre: "preWaterPlant fuel adc p s = Unfinished CalibrationLoop st"
    and loop: "cal_loop fuel adc (pre_start adc p s) (adc (conversions s)) 0 = Unfinished CalibrationLoop st"
  from cal_loop_invariant [of Q, OF assms(1) assms(2), of fuel "adc (conversions s)" 0] loop pre
  show ?thesis by simp
next
  fix s4 m' c'
  assume loop: "cal_loop fuel adc (pre_start adc p s) (adc (conversions s)) 0 = Returned (s4, m', c')"
    and pre: "preWaterPlant fuel adc p s = Unfinished AlarmLoop (alarm_loop fuel (emit Alarm s4))"
  from cal_loop_invariant [of Q, OF assms(1) assms(2), of fuel "adc (conversions s)" 0] loop
  have "Q s4" by simp
  then have "Q (emit Alarm s4)" by (rule assms(3))
  then have "Q (alarm_loop fuel (emit Alarm s4))" using assms(4) by (rule alarm_loop_invariant)
  with pre show ?thesis by simp
qed

lemma sensed_conversions: "conversions (initializeADC p (emit e s)) = conversions s"
  by (simp add: straight_defs)

lemma plantState_wet:
  "\<not> adc (conversions s) <s MOISTURE_MIN \<Longrightarrow>
   plantState fuel adc p s = Returned (deinitializeADC p (waterPlant p (sensed adc p s)))"
  by (simp add: plantState_def sensed_def checkMoisture_def Let_def sensed_conversions)

lemma plantState_dry:
  "adc (conversions s) <s MOISTURE_MIN \<Longrightarrow>
   plantState fuel adc p s = preWaterPlant fuel adc p (sensed adc p s)"
proof -
  assume dry: "adc (conversions s) <s MOISTURE_MIN"
  obtain pl st where "preWaterPlant fuel adc p (sensed adc p s) = Unfinished pl st"
    using preWaterPlant_unfinished by blast
  with dry show ?thesis
    by (simp add: plantState_def sensed_def checkMoisture_def Let_def sensed_conversions)
qed

lemma plantState_rule:
  assumes wet: "\<not> adc (conversions s) <s MOISTURE_MIN \<Longrightarrow>
      Inv (deinitializeADC p (waterPlant p (sensed adc p s)))"
    and dry: "adc (conversions s) <s MOISTURE_MIN \<Longrightarrow>
      Mid (final (preWaterPlant fuel adc p (sensed adc p s)))"
  shows "case plantState fuel adc p s of Returned t \<Rightarrow> Inv t | Unfinished pl st \<Rightarrow> Mid st"
proof (cases "adc (conversions s) <s MOISTURE_MIN")
  case True
  obtain pl st where u: "preWaterPlant fuel adc p (sensed adc p s) = Unfinished pl st"
    using preWaterPlant_unfinished by blast
  with dry [OF True] True show ?thesis by (simp add: plantState_dry)
next
  case False
  with wet show ?thesis by (simp add: plantState_wet)
qed

lemma cycle_rule:
  assumes station: "\<And>p t. Inv t \<Longrightarrow>
      (case plantState fuel adc p t of Returned t' \<Rightarrow> Inv t' | Unfinished pl st \<Rightarrow> Mid st)"
    and sleep: "\<And>t. Inv t \<Longrightarrow> Inv (hdelay 48 t)"
    and "Inv s"
  shows "case cycle fuel adc s of Returned t \<Rightarrow> Inv t | Unfinished pl st \<Rightarrow> Mid st"
proof (cases "plantState fuel adc Plant1 s")
  case (Unfinished pl st)
  with station [OF \<open>Inv s\<close>, of Plant1] show ?thesis by (simp add: cycle_def)
next
  case r1: (Returned s1)
  with station [OF \<open>Inv s\<close>, of Plant1] have i1: "Inv s1" by simp
  show ?thesis
  proof (cases "plantState fuel adc Plant2 s1")
    case (Unfinished pl st)
    with station [OF i1, of Plant2] r1 show ?thesis by (simp add: cycle_def)
  next
    case r2: (Returned s2)
    with station [OF i1, of Plant2] have i2: "Inv s2" by simp
    show ?thesis
    proof (cases "plantState fuel adc Plant3 s2")
      case (Unfinished pl st)
      with station [OF i2, of Plant3] r1 r2 show ?thesis by (simp add: cycle_def)
    next
      case r3: (Returned s3)
      with station [OF i2, of Plant3] have "Inv s3" by simp
      then have "Inv (hdelay 48 s3)" by (rule sleep)
      with r1 r2 r3 show ?thesis by (simp add: cycle_def)
    qed
  qed
qed

lemma main_loop_rule:
  assumes station: "\<And>p t. Inv t \<Longrightarrow>
      (case plantState fuel adc p t of Returned t' \<Rightarrow> Inv t' | Unfinished pl st \<Rightarrow> Mid st)"
    and sleep: "\<And>t. Inv t \<Longrightarrow> Inv (hdelay 48 t)"
    and weaken: "\<And>t. Inv t \<Longrightarrow> Mid t"
    and "Inv s"
  shows "Mid (final (main_loop n fuel adc s))"
  using \<open>Inv s\<close>
proof (induction n arbitrary: s)
  case 0
  then show ?case by (simp add: weaken)
next
  case (Suc n)
  from cycle_rule [where Inv=Inv and Mid=Mid and fuel=fuel and adc=adc, OF station sleep Suc.prems]
  show ?case
  proof (cases "cycle fuel adc s")
    case (Returned s')
    with cycle_rule [where Inv=Inv and Mid=Mid and fuel=fuel and adc=adc, OF station sleep Suc.prems] have "Inv s'" by simp
    from Suc.IH [OF this] Returned show ?thesis by simp
  next
    case (Unfinished pl st)
    with cycle_rule [where Inv=Inv and Mid=Mid and fuel=fuel and adc=adc, OF station sleep Suc.prems] show ?thesis by simp
  qed
qed

lemma main_loop_unfinished: "\<exists>pl st. main_loop n fuel adc s = Unfinished pl st"
proof (induction n arbitrary: s)
  case 0
  show ?case by simp
next
  case (Suc n)
  then show ?case by (cases "cycle fuel adc s") simp_all
qed


lemma cal_loop_Suc:
  "cal_loop (Suc n) adc s moisture counter =
     (if moisture <s MOISTURE_MAX \<or> counter <s MAX_TRAVEL
      then cal_loop n adc (cal_pass adc s) (adc (conversions s)) (counter + 1)
      else Returned (s, moisture, counter))"
proof (cases "continues adc s moisture counter 0")
  case True
  then show ?thesis
    using cal_loop_step' [OF True, of n] by (simp add: continues_def sampled_def)
next
  case False
  then show ?thesis
    using cal_loop_stop [OF False, of "Suc n"] by (simp add: continues_def sampled_def)
qed

lemma cal_loop_numeral:
  "cal_loop (numeral k) adc s moisture counter =
     (if moisture <s MOISTURE_MAX \<or> counter <s MAX_TRAVEL
      then cal_loop (pred_numeral k) adc (cal_pass adc s) (adc (conversions s)) (counter + 1)
      else Returned (s, moisture, counter))"
  using cal_loop_Suc [of "pred_numeral k" adc s moisture counter] by (simp add: numeral_eq_Suc)

lemma signed_0_1 [simp]:
  "(0 :: cint) <s numeral k \<longleftrightarrow> (0 :: int) < sint (numeral k :: cint)"
  "(1 :: cint) <s numeral k \<longleftrightarrow> (1 :: int) < sint (numeral k :: cint)"
  "numeral k \<le>s (0 :: cint) \<longleftrightarrow> sint (numeral k :: cint) \<le> (0 :: int)"
  "numeral k \<le>s (1 :: cint) \<longleftrightarrow> sint (numeral k :: cint) \<le> (1 :: int)"
  by (simp_all add: word_sless_alt word_sle_eq)

lemma cal_loop_0:
  "cal_loop 0 adc s moisture counter =
     (if moisture <s MOISTURE_MAX \<or> counter <s MAX_TRAVEL
      then Unfinished CalibrationLoop s
      else Returned (s, moisture, counter))"
  by (simp add: cal_loop.simps)

lemma alarm_loop_numeral: "alarm_loop (numeral k) s = alarm_loop (pred_numeral k) (alarm_pass s)"
  using alarm_loop_Suc [of "pred_numeral k" s] by (simp add: numeral_eq_Suc)

lemma main_loop_numeral:
  "main_loop (numeral k) fuel adc s =
     (case cycle fuel adc s of
        Unfinished pl st \<Rightarrow> Unfinished pl st
      | Returned s' \<Rightarrow> main_loop (pred_numeral k) fuel adc s')"
  using main_loop.simps(2) [of "pred_numeral k" fuel adc s] by (simp add: numeral_eq_Suc)

lemmas run_defs = cal_loop_Suc cal_loop_numeral cal_loop_0 alarm_loop_numeral main_loop_numeral
  cal_pass_def alarm_pass_def pre_start_def sensed_def straight_defs hw_defs
  cleared_def plant1_def plant2_def plant3_def

section \<open>Frames\<close>

lemma hdelay_eq:
  "hdelay h s = s\<lparr>elapsed_s := elapsed_s s + 3600 * nat (sint h),
      trace := trace s @ Sleep h # replicate (nat (sint h)) (Wait 3600)\<rparr>"
  by (simp add: hdelay_def hdelay_loop_eq emit_def)

lemma ram_frames [simp]:
  "ram (emit e s) = ram s"
  "ram (cal_pass adc s) = ram s"
  "ram (alarm_pass s) = ram s"
  "ram (pre_start adc p s) = ram s"
  "ram (sensed adc p s) = ram s"
  "ram (waterPlant p s) = ram s"
  "ram (deinitializeADC p s) = ram s"
  "ram (hdelay h s) = ram s"
  "ram (initialize s) = ram s"
  "ram (disableWatchdog s) = ram s"
  by (simp_all add: cal_pass_def alarm_pass_def pre_start_def sensed_def hdelay_eq
      initialize_def disableWatchdog_def straight_defs)

lemma preWaterPlant_ram: "ram (final (preWaterPlant fuel adc p s)) = ram s"
  by (rule preWaterPlant_invariant [where Q = "\<lambda>t. ram t = ram s"]) simp_all

lemma plantState_ram:
  "case plantState fuel adc p s of Returned t \<Rightarrow> ram t = ram s | Unfinished pl st \<Rightarrow> ram st = ram s"
  by (rule plantState_rule) (simp_all add: preWaterPlant_ram)

lemma main_loop_ram: "ram (final (main_loop n fuel adc s)) = ram s"
proof (rule main_loop_rule [where Inv = "\<lambda>t. ram t = ram s" and Mid = "\<lambda>t. ram t = ram s"])
  fix p and t :: mcu
  assume "ram t = ram s"
  with plantState_ram [where fuel = fuel and adc = adc and p = p and s = t]
  show "case plantState fuel adc p t of Returned t' \<Rightarrow> ram t' = ram s | Unfinished pl st \<Rightarrow> ram st = ram s"
    by (simp split: outcome.splits)
qed simp_all

lemma main_ram: "ram (final (main fuel adc s)) = plants"
  using main_loop_ram [where n = fuel and fuel = fuel and adc = adc
      and s = "(initialize (disableWatchdog s))\<lparr>ram := plants\<rparr>"]
  by (simp add: main_def Let_def)

lemma plants_travelTime: "travelTime (plants st) = 0"
  by (cases st) (simp_all add: plant1_def plant2_def plant3_def)

text \<open>
  C9. Whenever the calibration loop exits, \<open>MAX_TRAVEL \<le> counter\<close> holds; so every exit
  of the loop in \<open>preWaterPlant\<close> leads into the alarm loop, \<open>preWaterPlant\<close> never
  returns (the code behind the alarm branch, which stores \<open>counter\<close> into
  \<open>travelTime\<close>, is never reached), and in whatever state a run of the program is cut
  off, the \<open>travelTime\<close> of every station is 0.
\<close>

theorem travelTime_stays_zero:
  "(cal_loop n adc s m c = Returned (s', m', c') \<longrightarrow> MAX_TRAVEL \<le>s c') \<and>
   (cal_loop fuel adc (pre_start adc p s) (adc (conversions s)) 0 = Returned (s4, m4, c4) \<longrightarrow>
      preWaterPlant fuel adc p s = Unfinished AlarmLoop (alarm_loop fuel (emit Alarm s4))) \<and>
   (\<forall>t. preWaterPlant fuel adc p s \<noteq> Returned t) \<and>
   (\<forall>st. travelTime (ram (final (main fuel adc s0)) st) = 0)"
proof (intro conjI impI allI)
  assume "cal_loop n adc s m c = Returned (s', m', c')"
  then show "MAX_TRAVEL \<le>s c'" using cal_loop_exit_cond by blast
next
  assume "cal_loop fuel adc (pre_start adc p s) (adc (conversions s)) 0 = Returned (s4, m4, c4)"
  then show "preWaterPlant fuel adc p s = Unfinished AlarmLoop (alarm_loop fuel (emit Alarm s4))"
    by (rule_tac preWaterPlant_cases [of fuel adc p s]) simp_all
next
  fix t
  show "preWaterPlant fuel adc p s \<noteq> Returned t"
    using preWaterPlant_unfinished [of fuel adc p s] by auto
next
  fix st
  show "travelTime (ram (final (main fuel adc s0)) st) = 0"
    by (simp add: main_ram plants_travelTime)
qed


theorem travelTime_stays_zero_witness:
  "\<exists>s' s4. cal_loop 5 (\<lambda>i. 700) cleared 700 0 = Returned (s', 700, 5) \<and> MAX_TRAVEL \<le>s 5 \<and>
     cal_loop 5 (\<lambda>i. 700) (pre_start (\<lambda>i. 700) Plant1 cleared) 700 0 = Returned (s4, 700, 5) \<and>
     preWaterPlant 5 (\<lambda>i. 700) Plant1 cleared = Unfinished AlarmLoop (alarm_loop 5 (emit Alarm s4))"
proof -
  have "\<exists>s'. cal_loop 5 (\<lambda>i. 700) cleared 700 0 = Returned (s', 700, 5)"
    by (simp add: run_defs)
  then obtain s' where a: "cal_loop 5 (\<lambda>i. 700) cleared 700 0 = Returned (s', 700, 5)" ..
  have "\<exists>s4. cal_loop 5 (\<lambda>i. 700) (pre_start (\<lambda>i. 700) Plant1 cleared) 700 0 = Returned (s4, 700, 5)"
    by (simp add: run_defs)
  then obtain s4 where
    b: "cal_loop 5 (\<lambda>i. 700) (pre_start (\<lambda>i. 700) Plant1 cleared) 700 0 = Returned (s4, 700, 5)" ..
  from a b show ?thesis
    using travelTime_stays_zero [where n = 5 and adc = "\<lambda>i. 700" and s = cleared and m = 700
        and c = 0 and s' = s' and m' = 700 and c' = 5 and fuel = 5 and p = Plant1 and ?s4.0 = s4
        and ?m4.0 = 700 and ?c4.0 = 5]
    by auto
qed


section \<open>The alarm\<close>

lemma or_and_not: "(x OR m) AND NOT m = (x AND NOT m :: 8 word)"
  by (auto simp add: bit_eq_iff bit_simps)

lemma cal_pass_simps [simp]:
  "P1OUT (cal_pass adc t) = P1OUT t"
  "P2OUT (cal_pass adc t) = P2OUT t OR ucast BIT3"
  "conversions (cal_pass adc t) = Suc (conversions t)"
  "trace (cal_pass adc t) =
     trace t @ [Out2 (P2OUT t OR ucast BIT3), Wait 1, Sample (adc (conversions t))]"
  by (simp_all add: cal_pass_def straight_defs)

lemma indicator_mask:
  "(ucast (NOT (BIT0 + BIT2 + BIT4)) :: 8 word) = NOT (ucast (BIT0 + BIT2 + BIT4))"
  by (simp add: hw_defs)

lemma alarm_pass_simps [simp]:
  "P1OUT (alarm_pass t) = P1OUT t AND NOT (ucast (BIT0 + BIT2 + BIT4))"
  "P2OUT (alarm_pass t) = P2OUT t"
  "conversions (alarm_pass t) = conversions t"
  "trace (alarm_pass t) =
     trace t @ [Out1 (P1OUT t OR ucast (BIT0 + BIT2 + BIT4)), Wait 1,
       Out1 (P1OUT t AND NOT (ucast (BIT0 + BIT2 + BIT4))), Wait 1]"
  by (simp_all add: alarm_pass_def straight_defs indicator_mask or_and_not)

lemma pre_start_simps [simp]:
  "P1OUT (pre_start adc p s) = P1OUT s"
  "P2OUT (pre_start adc p s) = P2OUT s OR ucast (activateSolenoid (ram s p))"
  "conversions (pre_start adc p s) = Suc (conversions s)"
  "trace (pre_start adc p s) =
     trace s @ [Calibrate p, Sample (adc (conversions s)),
       Out2 (P2OUT s OR ucast (activateSolenoid (ram s p))), Wait 1]"
  by (simp_all add: pre_start_def straight_defs)

lemma emit_simps [simp]:
  "P1OUT (emit e s) = P1OUT s"
  "P2OUT (emit e s) = P2OUT s"
  "conversions (emit e s) = conversions s"
  "trace (emit e s) = trace s @ [e]"
  by (simp_all add: emit_def)

lemma cal_loop_valves:
  assumes "cal_loop n adc s m c = Returned (s', m', c')" and "conversions s' \<noteq> conversions s"
  shows "P1OUT s' = P1OUT s \<and> P2OUT s' = P2OUT s OR ucast BIT3 \<and>
    (\<exists>tr. trace s' = trace s @ tr \<and> Out2 (P2OUT s OR ucast BIT3) \<in> set tr)"
proof -
  let ?Q = "\<lambda>t. P1OUT t = P1OUT s \<and>
    (conversions t = conversions s \<and> P2OUT t = P2OUT s \<and> trace t = trace s \<or>
    conversions s < conversions t \<and> P2OUT t = P2OUT s OR ucast BIT3 \<and>
    (\<exists>tr. trace t = trace s @ tr \<and> Out2 (P2OUT s OR ucast BIT3) \<in> set tr))"
  have "?Q (loop_final (cal_loop n adc s m c))"
  proof (rule cal_loop_invariant [where Q = ?Q])
    show "?Q s" by simp
  next
    fix t :: mcu assume "?Q t"
    then show "?Q (cal_pass adc t)" by auto
  qed
  with assms show ?thesis by simp
qed


lemma alarm_loop_effect:
  "P2OUT (alarm_loop n (emit Alarm s)) = P2OUT s \<and>
   (\<exists>after. trace (alarm_loop n (emit Alarm s)) = trace s @ Alarm # after \<and>
      (\<forall>e\<in>set after. (\<exists>v. e = Out1 v \<and>
          v AND NOT (ucast (BIT0 + BIT2 + BIT4)) = P1OUT s AND NOT (ucast (BIT0 + BIT2 + BIT4))) \<or>
        e = Wait 1))"
proof -
  let ?m = "ucast (BIT0 + BIT2 + BIT4) :: 8 word"
  let ?Q = "\<lambda>t. P2OUT t = P2OUT s \<and> P1OUT t AND NOT ?m = P1OUT s AND NOT ?m \<and>
    (\<exists>after. trace t = trace s @ Alarm # after \<and>
      (\<forall>e\<in>set after. (\<exists>v. e = Out1 v \<and> v AND NOT ?m = P1OUT s AND NOT ?m) \<or> e = Wait 1))"
  have "?Q (alarm_loop n (emit Alarm s))"
  proof (rule alarm_loop_invariant [where Q = ?Q])
    show "?Q (emit Alarm s)" by simp
  next
    fix t :: mcu assume q: "?Q t"
    then obtain after where a: "trace t = trace s @ Alarm # after"
      "\<forall>e\<in>set after. (\<exists>v. e = Out1 v \<and> v AND NOT ?m = P1OUT s AND NOT ?m) \<or> e = Wait 1"
      by blast
    let ?new = "[Out1 (P1OUT t OR ?m), Wait 1, Out1 (P1OUT t AND NOT ?m), Wait 1]"
    have "trace (alarm_pass t) = trace s @ Alarm # (after @ ?new)" using a(1) by simp
    moreover have "\<forall>e\<in>set (after @ ?new).
        (\<exists>v. e = Out1 v \<and> v AND NOT ?m = P1OUT s AND NOT ?m) \<or> e = Wait 1"
      using a(2) q by (auto simp: or_and_not)
    ultimately show "?Q (alarm_pass t)" using q by (simp del: set_append)
  qed
  then show ?thesis by blast
qed

text \<open>
  C10. When the alarm loop is entered from \<open>preWaterPlant\<close>, both the station's valve
  output and the shared-line valve output \<open>BIT3\<close> of \<open>P2OUT\<close> have been set before;
  after the entry only \<open>P1OUT\<close> is written, and only in its indicator bits, and time
  passes; so after any number of passes of the alarm loop \<open>P2OUT\<close> still holds the
  value with both valve bits set.
\<close>

theorem alarm_keeps_valves_open:
  assumes "preWaterPlant fuel adc p s = Unfinished AlarmLoop st"
  shows "P2OUT st = P2OUT s OR ucast (activateSolenoid (ram s p)) OR ucast BIT3 \<and>
    (\<exists>before after. trace st = trace s @ before @ Alarm # after \<and>
       Out2 (P2OUT s OR ucast (activateSolenoid (ram s p))) \<in> set before \<and>
       Out2 (P2OUT s OR ucast (activateSolenoid (ram s p)) OR ucast BIT3) \<in> set before \<and>
       (\<forall>e\<in>set after. (\<exists>v. e = Out1 v \<and>
           v AND NOT (ucast (BIT0 + BIT2 + BIT4)) = P1OUT s AND NOT (ucast (BIT0 + BIT2 + BIT4))) \<or>
         e = Wait 1))"
proof (rule preWaterPlant_cases [of fuel adc p s])
  fix st'
  assume "preWaterPlant fuel adc p s = Unfinished CalibrationLoop st'"
  with assms show ?thesis by simp
next
  fix s4 m' c'
  let ?s3 = "pre_start adc p s"
  let ?sol = "ucast (activateSolenoid (ram s p)) :: 8 word"
  assume loop: "cal_loop fuel adc ?s3 (adc (conversions s)) 0 = Returned (s4, m', c')"
    and pre: "preWaterPlant fuel adc p s = Unfinished AlarmLoop (alarm_loop fuel (emit Alarm s4))"
  from pre assms have st: "st = alarm_loop fuel (emit Alarm s4)" by simp
  from cal_loop_Returned [OF loop] obtain k where
    k: "c' = 0 + of_nat k" "conversions s4 = conversions ?s3 + k" by blast
  from cal_loop_exit_cond [OF loop] have "MAX_TRAVEL \<le>s c'" by simp
  have "k \<noteq> 0"
  proof
    assume "k = 0"
    with k(1) \<open>MAX_TRAVEL \<le>s c'\<close> show False by (simp add: hw_defs)
  qed
  with k(2) have "conversions s4 \<noteq> conversions ?s3" by simp
  from cal_loop_valves [OF loop this] obtain tr where
    v: "P1OUT s4 = P1OUT s" "P2OUT s4 = P2OUT s OR ?sol OR ucast BIT3"
      "trace s4 = trace ?s3 @ tr" "Out2 (P2OUT s OR ?sol OR ucast BIT3) \<in> set tr"
    by (auto simp: or.assoc)
  from alarm_loop_effect [of fuel s4] obtain after where
    a: "P2OUT st = P2OUT s4" "trace st = trace s4 @ Alarm # after"
      "\<forall>e\<in>set after. (\<exists>v. e = Out1 v \<and>
           v AND NOT (ucast (BIT0 + BIT2 + BIT4)) = P1OUT s4 AND NOT (ucast (BIT0 + BIT2 + BIT4))) \<or>
         e = Wait 1"
    unfolding st by blast
  let ?before = "[Calibrate p, Sample (adc (conversions s)), Out2 (P2OUT s OR ?sol), Wait 1] @ tr"
  have "trace st = trace s @ ?before @ Alarm # after" using a(2) v(3) by simp
  moreover have "Out2 (P2OUT s OR ?sol) \<in> set ?before" by simp
  moreover have "Out2 (P2OUT s OR ?sol OR ucast BIT3) \<in> set ?before" using v(4) by simp
  ultimately show ?thesis using a(1) a(3) v(1) v(2) by (simp only:) blast
qed

theorem alarm_keeps_valves_open_witness:
  "\<exists>st. preWaterPlant 5 (\<lambda>i. 700) Plant1 cleared = Unfinished AlarmLoop st \<and> P2OUT st = 9 \<and>
     P2OUT st = P2OUT cleared OR ucast (activateSolenoid (ram cleared Plant1)) OR ucast BIT3"
proof -
  have "\<exists>st. preWaterPlant 5 (\<lambda>i. 700) Plant1 cleared = Unfinished AlarmLoop st \<and> P2OUT st = 9"
    by (simp add: preWaterPlant_def run_defs)
  then obtain st where
    a: "preWaterPlant 5 (\<lambda>i. 700) Plant1 cleared = Unfinished AlarmLoop st" "P2OUT st = 9" by blast
  from alarm_keeps_valves_open [OF a(1)] a show ?thesis by blast
qed


section \<open>The valves\<close>

lemma P2_masks:
  "ucast BIT3 = (8 :: 8 word)"
  "ucast (NOT BIT3) = (0xF7 :: 8 word)"
  "ucast (NOT (BIT0 + BIT1 + BIT2 + BIT3)) = (0xF0 :: 8 word)"
  by (simp_all add: hw_defs)

lemma solenoid_cases:
  "(ucast (activateSolenoid (plants p)) :: 8 word, ucast (NOT (activateSolenoid (plants p))) :: 8 word)
     \<in> {(1, 0xFE), (2, 0xFD), (4, 0xFB)}"
  by (cases p) (simp_all add: plant1_def plant2_def plant3_def hw_defs)

lemma valves_closed_iff:
  "valves_closed v \<longleftrightarrow> \<not> bit v 0 \<and> \<not> bit v 1 \<and> \<not> bit v 2 \<and> \<not> bit v 3"
  by (auto simp: valves_closed_def open_valves_def)

lemma valve_steps:
  assumes "valves_closed x" and "(sol, nsol) \<in> {(1, 0xFE), (2, 0xFD), (4, 0xFB :: 8 word)}"
  shows "valves_exclusive (x OR sol)"
    and "valves_exclusive ((x OR sol) OR 8)"
    and "valves_exclusive (((x OR sol) OR 8) AND 0xF7)"
    and "valves_closed ((((x OR sol) OR 8) AND 0xF7) AND nsol)"
    and "valves_exclusive ((((x OR sol) OR 8) AND 0xF7) AND nsol)"
  using assms
  by (auto simp: valves_closed_iff valves_exclusive_def bit_or_iff bit_and_iff)

lemma init_closed: "valves_closed (x AND 0xF0)"
  by (simp add: valves_closed_iff bit_and_iff)


lemma sensed_simps [simp]:
  "P1OUT (sensed adc p t) = P1OUT t OR ucast (enableADC (ram t p))"
  "P2OUT (sensed adc p t) = P2OUT t"
  "conversions (sensed adc p t) = Suc (conversions t)"
  "trace (sensed adc p t) =
     trace t @ [Sense p, Out1 (P1OUT t OR ucast (enableADC (ram t p))), WaitMs 500,
       Sample (adc (conversions t))]"
  by (simp_all add: sensed_def straight_defs)

lemma waterPlant_simps [simp]:
  "P1OUT (waterPlant p t) = P1OUT t"
  "P2OUT (waterPlant p t) =
     (((P2OUT t OR ucast (activateSolenoid (ram t p))) OR ucast BIT3) AND ucast (NOT BIT3))
       AND ucast (NOT (activateSolenoid (ram t p)))"
  "conversions (waterPlant p t) = conversions t"
  "trace (waterPlant p t) =
     trace t @ [Dose p (travelTime (ram t p) + SOAK_TIME),
       Out2 (P2OUT t OR ucast (activateSolenoid (ram t p))), Wait 1,
       Out2 ((P2OUT t OR ucast (activateSolenoid (ram t p))) OR ucast BIT3),
       Wait (nat (sint (travelTime (ram t p) + SOAK_TIME))),
       Out2 (((P2OUT t OR ucast (activateSolenoid (ram t p))) OR ucast BIT3) AND ucast (NOT BIT3)),
       Wait 2,
       Out2 ((((P2OUT t OR ucast (activateSolenoid (ram t p))) OR ucast BIT3) AND ucast (NOT BIT3))
         AND ucast (NOT (activateSolenoid (ram t p))))]"
  by (simp_all add: straight_defs)

lemma deinitializeADC_simps [simp]:
  "P1OUT (deinitializeADC p t) = P1OUT t AND ucast (NOT (enableADC (ram t p)))"
  "P2OUT (deinitializeADC p t) = P2OUT t"
  "conversions (deinitializeADC p t) = conversions t"
  "trace (deinitializeADC p t) = trace t @ [Out1 (P1OUT t AND ucast (NOT (enableADC (ram t p))))]"
  by (simp_all add: straight_defs)

lemma hdelay_simps [simp]:
  "P1OUT (hdelay h t) = P1OUT t"
  "P2OUT (hdelay h t) = P2OUT t"
  "conversions (hdelay h t) = conversions t"
  "elapsed_s (hdelay h t) = elapsed_s t + 3600 * nat (sint h)"
  "trace (hdelay h t) = trace t @ Sleep h # replicate (nat (sint h)) (Wait 3600)"
  by (simp_all add: hdelay_eq)

lemma start_simps [simp]:
  "P2OUT (initialize (disableWatchdog s)) = P2OUT s AND ucast (NOT (BIT0 + BIT1 + BIT2 + BIT3))"
  "trace (initialize (disableWatchdog s)) =
     trace s @ [Out1 (P1OUT s AND ucast (NOT (BIT0 + BIT2 + BIT4))),
       Out2 (P2OUT s AND ucast (NOT (BIT0 + BIT1 + BIT2 + BIT3)))]"
  by (simp_all add: initialize_def disableWatchdog_def straight_defs)

lemma valve_safe_refl: "valve_safe s s"
  by (simp add: valve_safe_def)

lemma valve_safe_append:
  assumes "valve_safe s t" and "trace u = trace t @ es"
    and "\<And>v. Out2 v \<in> set es \<Longrightarrow> valves_exclusive v"
  shows "valve_safe s u"
proof -
  from assms(1) obtain tr where tr: "trace t = trace s @ tr"
    "\<forall>v. Out2 v \<in> set tr \<longrightarrow> valves_exclusive v" by (auto simp: valve_safe_def)
  have "trace u = trace s @ (tr @ es)" using tr(1) assms(2) by simp
  moreover have "\<forall>v. Out2 v \<in> set (tr @ es) \<longrightarrow> valves_exclusive v"
    using tr(2) assms(3) by auto
  ultimately show ?thesis unfolding valve_safe_def by blast
qed

lemma valves_closed_exclusive: "valves_closed v \<Longrightarrow> valves_exclusive v"
  by (simp add: valves_closed_iff valves_exclusive_def)

lemma station_wet_safe:
  assumes "ram t = plants" and "valves_closed (P2OUT t)" and "valve_safe s t"
  shows "valves_closed (P2OUT (deinitializeADC p (waterPlant p (sensed adc p t)))) \<and>
    valve_safe s (deinitializeADC p (waterPlant p (sensed adc p t)))"
proof -
  let ?sol = "ucast (activateSolenoid (plants p)) :: 8 word"
  let ?nsol = "ucast (NOT (activateSolenoid (plants p))) :: 8 word"
  note vs = valve_steps [OF assms(2) solenoid_cases [of p]]
  have "valves_closed (P2OUT (deinitializeADC p (waterPlant p (sensed adc p t))))"
    using vs(4) assms(1) by (simp add: P2_masks)
  moreover have "valve_safe s (deinitializeADC p (waterPlant p (sensed adc p t)))"
    by (rule valve_safe_append [OF assms(3)], simp, use vs assms(1) in \<open>auto simp: P2_masks\<close>)
  ultimately show ?thesis ..
qed

lemma station_dry_safe:
  assumes "ram t = plants" and "valves_closed (P2OUT t)" and "valve_safe s t"
  shows "valve_safe s (final (preWaterPlant fuel adc p (sensed adc p t)))"
proof -
  let ?a = "P2OUT t OR ucast (activateSolenoid (plants p)) :: 8 word"
  let ?Q = "\<lambda>u. valve_safe s u \<and> (P2OUT u = ?a \<or> P2OUT u = ?a OR 8)"
  note vs = valve_steps [OF assms(2) solenoid_cases [of p]]
  have "?Q (final (preWaterPlant fuel adc p (sensed adc p t)))"
  proof (rule preWaterPlant_invariant [where Q = ?Q])
    have "valve_safe s (pre_start adc p (sensed adc p t))"
      by (rule valve_safe_append [OF assms(3)], simp, use vs assms(1) in auto)
    then show "?Q (pre_start adc p (sensed adc p t))" using assms(1) by simp
  next
    fix u :: mcu assume q: "?Q u"
    then have "valve_safe s (cal_pass adc u)"
      by (elim conjE, rule_tac valve_safe_append [where t = u and es = "[Out2 (P2OUT u OR 8), Wait 1, Sample (adc (conversions u))]"])
         (use vs in \<open>auto simp: P2_masks\<close>)
    with q show "?Q (cal_pass adc u)" by (auto simp: P2_masks)
  next
    fix u :: mcu assume q: "?Q u"
    then have "valve_safe s (emit Alarm u)"
      by (elim conjE, rule_tac valve_safe_append [where t = u and es = "[Alarm]"]) auto
    with q show "?Q (emit Alarm u)" by simp
  next
    fix u :: mcu assume q: "?Q u"
    then have "valve_safe s (alarm_pass u)"
      by (elim conjE, rule_tac valve_safe_append [where t = u and es = "[Out1 (P1OUT u OR ucast (BIT0 + BIT2 + BIT4)), Wait 1,
       Out1 (P1OUT u AND NOT (ucast (BIT0 + BIT2 + BIT4))), Wait 1]"]) auto
    with q show "?Q (alarm_pass u)" by simp
  qed
  then show ?thesis ..
qed


lemma main_valve_safe: "valve_safe s (final (main fuel adc s))"
proof -
  let ?s0 = "(initialize (disableWatchdog s))\<lparr>ram := plants\<rparr>"
  let ?Inv = "\<lambda>t. ram t = plants \<and> valves_closed (P2OUT t) \<and> valve_safe s t"
  have "valve_safe s (final (main_loop fuel fuel adc ?s0))"
  proof (rule main_loop_rule [where Inv = ?Inv and Mid = "valve_safe s"])
    fix p and t :: mcu
    assume i: "?Inv t"
    have w: "valves_closed (P2OUT (deinitializeADC p (waterPlant p (sensed adc p t)))) \<and>
      valve_safe s (deinitializeADC p (waterPlant p (sensed adc p t)))"
      by (rule station_wet_safe) (use i in simp_all)
    have r: "ram (deinitializeADC p (waterPlant p (sensed adc p t))) = plants"
      using i by simp
    have d: "valve_safe s (final (preWaterPlant fuel adc p (sensed adc p t)))"
      by (rule station_dry_safe) (use i in simp_all)
    from w r d
    show "case plantState fuel adc p t of Returned t' \<Rightarrow> ?Inv t' | Unfinished pl st \<Rightarrow> valve_safe s st"
      by (intro plantState_rule) blast+
  next
    fix t :: mcu
    assume i: "?Inv t"
    then have "valve_safe s (hdelay 48 t)"
      by (elim conjE, rule_tac valve_safe_append [where t = t and es = "Sleep 48 # replicate 48 (Wait 3600)"])
         auto
    with i show "?Inv (hdelay 48 t)" by simp
  next
    fix t :: mcu
    assume "?Inv t"
    then show "valve_safe s t" by simp
  next
    have "valves_closed (P2OUT ?s0)" by (simp add: P2_masks init_closed)
    moreover have "valve_safe s ?s0"
      by (rule valve_safe_append [OF valve_safe_refl, where es = "[Out1 (P1OUT s AND ucast (NOT (BIT0 + BIT2 + BIT4))),
       Out2 (P2OUT s AND ucast (NOT (BIT0 + BIT1 + BIT2 + BIT3)))]"])
        (auto simp: P2_masks init_closed valves_closed_exclusive)
    ultimately show "?Inv ?s0" by simp
  qed
  then show ?thesis by (simp add: main_def Let_def)
qed

lemma wet_cycle_trace:
  "trace (final (main 1 (\<lambda>i. 400) cleared)) =
     [Out1 0, Out2 0,
      Sense Plant1, Out1 1, WaitMs 500, Sample 400, Dose Plant1 3, Out2 1,
      Wait 1, Out2 9, Wait 3, Out2 1, Wait 2, Out2 0, Out1 0,
      Sense Plant2, Out1 4, WaitMs 500, Sample 400, Dose Plant2 3, Out2 2,
      Wait 1, Out2 10, Wait 3, Out2 2, Wait 2, Out2 0, Out1 0,
      Sense Plant3, Out1 16, WaitMs 500, Sample 400, Dose Plant3 3, Out2 4,
      Wait 1, Out2 12, Wait 3, Out2 4, Wait 2, Out2 0, Out1 0]
     @ Sleep 48 # replicate 48 (Wait 3600)"
  by (simp add: main_def cycle_def plantState_def run_defs hdelay_eq initialize_def
      disableWatchdog_def)


lemma port2_append: "port2 v (xs @ ys) = port2 (port2 v xs) ys"
  by (induction v xs rule: port2.induct) simp_all

lemma port2_waits [simp]: "port2 v (replicate n (Wait k)) = v"
  by (induction n) simp_all

lemma replays_refl: "replays s s"
  by (simp add: replays_def)

lemma replays_append:
  assumes "replays s t" and "trace u = trace t @ es" and "P2OUT u = port2 (P2OUT t) es"
  shows "replays s u"
proof -
  from assms(1) obtain tr where tr: "trace t = trace s @ tr" "P2OUT t = port2 (P2OUT s) tr"
    by (auto simp: replays_def)
  have "trace u = trace s @ (tr @ es)" using tr(1) assms(2) by simp
  moreover have "P2OUT u = port2 (P2OUT s) (tr @ es)"
    using tr(2) assms(3) by (simp add: port2_append)
  ultimately show ?thesis unfolding replays_def by blast
qed

lemma station_wet_replays:
  assumes "replays s t"
  shows "replays s (deinitializeADC p (waterPlant p (sensed adc p t)))"
  by (rule replays_append [OF assms], simp, simp)

lemma station_dry_replays:
  assumes "replays s t"
  shows "replays s (final (preWaterPlant fuel adc p (sensed adc p t)))"
proof (rule preWaterPlant_invariant [where Q = "replays s"])
  show "replays s (pre_start adc p (sensed adc p t))"
    by (rule replays_append [OF assms], simp, simp)
next
  fix u :: mcu assume "replays s u"
  then show "replays s (cal_pass adc u)" by (rule replays_append, simp, simp)
next
  fix u :: mcu assume "replays s u"
  then show "replays s (emit Alarm u)" by (rule replays_append, simp, simp)
next
  fix u :: mcu assume "replays s u"
  then show "replays s (alarm_pass u)" by (rule replays_append, simp, simp)
qed

lemma main_loop_replays: "replays s (final (main_loop n fuel adc s))"
proof (rule main_loop_rule [where Inv = "replays s" and Mid = "replays s"])
  fix p and t :: mcu
  assume "replays s t"
  then show "case plantState fuel adc p t of Returned t' \<Rightarrow> replays s t'
      | Unfinished pl st \<Rightarrow> replays s st"
    by (intro plantState_rule station_wet_replays station_dry_replays)
next
  fix t :: mcu
  assume "replays s t"
  then show "replays s (hdelay 48 t)" by (rule replays_append, simp, simp)
qed (simp_all add: replays_refl)

lemma port2_exclusive:
  assumes "valves_exclusive v" and "\<forall>w. Out2 w \<in> set es \<longrightarrow> valves_exclusive w"
  shows "valves_exclusive (port2 v es)"
  using assms by (induction v es rule: port2.induct) simp_all


text \<open>
  C7, as stated: at every instant of a full three-station cycle at most one of the four
  valve outputs is high. It fails in every dose: with all three stations wet, the first
  station's dose writes 9 to \<open>P2OUT\<close>, which opens the station valve \<open>P2.0\<close> and the
  shared-line valve \<open>P2.3\<close> together.
\<close>

theorem at_most_one_valve_counterexample:
  "Out2 9 \<in> set (trace (final (main 1 (\<lambda>i. 400) cleared))) \<and> open_valves 9 = [0, 3] \<and>
   \<not> length (open_valves 9) \<le> 1"
  unfolding wet_cycle_trace by (simp add: open_valves_def)

text \<open>
  C7, amended: at every instant of an execution of the full three-station cycle, that
  is from the write of \<open>initialize\<close> to \<open>P2OUT\<close> on, at most one station valve output
  is high, and the shared-line valve output is high only together with a station valve
  output. For every sample sequence and every start state, the log of a run begins with
  the two writes of \<open>initialize\<close>, the second of which shuts all valves; \<open>P2OUT\<close> in
  the state reached is what the later writes make of it; and after any number of the
  later events \<open>P2OUT\<close> holds a value that keeps the valves exclusive.
\<close>

theorem valves_exclusive_at_every_instant:
  "\<exists>v1 v0 tr. trace (final (main fuel adc s)) = trace s @ Out1 v1 # Out2 v0 # tr \<and>
     v0 = P2OUT s AND ucast (NOT (BIT0 + BIT1 + BIT2 + BIT3)) \<and> valves_closed v0 \<and>
     P2OUT (final (main fuel adc s)) = port2 v0 tr \<and>
     (\<forall>n. valves_exclusive (port2 v0 (take n tr)))"
proof -
  let ?s0 = "(initialize (disableWatchdog s))\<lparr>ram := plants\<rparr>"
  let ?v1 = "P1OUT s AND ucast (NOT (BIT0 + BIT2 + BIT4))"
  let ?v0 = "P2OUT s AND ucast (NOT (BIT0 + BIT1 + BIT2 + BIT3))"
  have fin: "final (main fuel adc s) = final (main_loop fuel fuel adc ?s0)"
    by (simp add: main_def Let_def)
  from main_loop_replays [of ?s0 fuel fuel adc] obtain tr where
    tr: "trace (final (main fuel adc s)) = trace ?s0 @ tr"
      "P2OUT (final (main fuel adc s)) = port2 (P2OUT ?s0) tr"
    unfolding fin replays_def by blast
  have t0: "trace ?s0 = trace s @ [Out1 ?v1, Out2 ?v0]" and p0: "P2OUT ?s0 = ?v0"
    by simp_all
  have closed: "valves_closed ?v0" by (simp add: P2_masks init_closed)
  from main_valve_safe [of s fuel adc] obtain tr1 where
    tr1: "trace (final (main fuel adc s)) = trace s @ tr1"
      "\<forall>v. Out2 v \<in> set tr1 \<longrightarrow> valves_exclusive v"
    by (auto simp: valve_safe_def)
  from tr(1) t0 tr1(1) have "tr1 = Out1 ?v1 # Out2 ?v0 # tr" by simp
  with tr1(2) have ok: "\<forall>v. Out2 v \<in> set tr \<longrightarrow> valves_exclusive v" by simp
  have "valves_exclusive (port2 ?v0 (take n tr))" for n
  proof (rule port2_exclusive)
    show "valves_exclusive ?v0" using closed by (rule valves_closed_exclusive)
    show "\<forall>w. Out2 w \<in> set (take n tr) \<longrightarrow> valves_exclusive w"
      using ok by (auto dest: in_set_takeD)
  qed
  moreover have "trace (final (main fuel adc s)) = trace s @ Out1 ?v1 # Out2 ?v0 # tr"
    using tr(1) t0 by simp
  moreover have "P2OUT (final (main fuel adc s)) = port2 ?v0 tr" using tr(2) p0 by simp
  ultimately show ?thesis using closed by blast
qed

theorem valves_exclusive_at_every_instant_witness:
  "\<exists>tr. trace (final (main 1 (\<lambda>i. 400) cleared)) = trace cleared @ Out1 0 # Out2 0 # tr \<and>
     port2 0 (take 8 tr) = 9 \<and> valves_exclusive (port2 0 (take 8 tr)) \<and>
     port2 0 (take 21 tr) = 10 \<and> valves_exclusive (port2 0 (take 21 tr))"
proof -
  from valves_exclusive_at_every_instant [of 1 "\<lambda>i. 400" cleared] obtain v1 v0 tr where
    tr: "trace (final (main 1 (\<lambda>i. 400) cleared)) = trace cleared @ Out1 v1 # Out2 v0 # tr"
      "\<forall>n. valves_exclusive (port2 v0 (take n tr))" by blast
  from tr(1) have v: "v1 = 0" "v0 = 0" and
    "tr = [Sense Plant1, Out1 1, WaitMs 500, Sample 400, Dose Plant1 3, Out2 1,
      Wait 1, Out2 9, Wait 3, Out2 1, Wait 2, Out2 0, Out1 0,
      Sense Plant2, Out1 4, WaitMs 500, Sample 400, Dose Plant2 3, Out2 2,
      Wait 1, Out2 10, Wait 3, Out2 2, Wait 2, Out2 0, Out1 0,
      Sense Plant3, Out1 16, WaitMs 500, Sample 400, Dose Plant3 3, Out2 4,
      Wait 1, Out2 12, Wait 3, Out2 4, Wait 2, Out2 0, Out1 0]
     @ Sleep 48 # replicate 48 (Wait 3600)"
    unfolding wet_cycle_trace by (simp_all add: cleared_def)
  then have "port2 0 (take 8 tr) = 9" "port2 0 (take 21 tr) = 10" by simp_all
  moreover from tr(2) v have "valves_exclusive (port2 0 (take 8 tr))"
    "valves_exclusive (port2 0 (take 21 tr))" by simp_all
  ultimately show ?thesis using tr(1) v by blast
qed

section \<open>Doses\<close>

lemma plantState_Returned:
  assumes "plantState fuel adc p s = Returned t"
  shows "\<not> adc (conversions s) <s MOISTURE_MIN \<and> t = deinitializeADC p (waterPlant p (sensed adc p s))"
proof (cases "adc (conversions s) <s MOISTURE_MIN")
  case True
  with assms preWaterPlant_unfinished [of fuel adc p "sensed adc p s"] show ?thesis
    by (auto simp: plantState_dry)
next
  case False
  with assms show ?thesis by (simp add: plantState_wet)
qed

lemma dry_station_stuck:
  assumes "adc (conversions s) <s MOISTURE_MIN"
  shows "\<exists>pl st. plantState fuel adc p s = Unfinished pl st \<and> ram st = ram s \<and>
    (\<exists>tr. trace st = trace s @ tr \<and> filter is_dose tr = [] \<and> Wait 60 \<notin> set tr \<and>
       Calibrate p \<in> set tr)"
proof -
  let ?Q = "\<lambda>u. ram u = ram s \<and> (\<exists>tr. trace u = trace s @ tr \<and> filter is_dose tr = [] \<and>
    Wait 60 \<notin> set tr \<and> Calibrate p \<in> set tr)"
  have "?Q (final (preWaterPlant fuel adc p (sensed adc p s)))"
    by (rule preWaterPlant_invariant [where Q = ?Q]) auto
  moreover obtain pl st where "preWaterPlant fuel adc p (sensed adc p s) = Unfinished pl st"
    using preWaterPlant_unfinished by blast
  ultimately show ?thesis using assms by (simp add: plantState_dry)
qed

text \<open>
  C4, as stated: the dose at the end of a station's processing lasts \<open>travelTime\<close> ticks,
  so none on the first cycle. It fails: the first station, wet and never calibrated
  (\<open>travelTime\<close> is 0), gets a dose with \<open>waterTime\<close> 3, and the shared-line valve is
  open for 3 ticks.
\<close>

theorem maintenance_dose_counterexample:
  "travelTime (ram cleared Plant1) = 0 \<and>
   trace (final (plantState 1 (\<lambda>i. 400) Plant1 cleared)) =
     [Sense Plant1, Out1 1, WaitMs 500, Sample 400, Dose Plant1 3, Out2 1, Wait 1, Out2 9,
      Wait 3, Out2 1, Wait 2, Out2 0, Out1 0] \<and>
   Dose Plant1 (travelTime (ram cleared Plant1)) \<notin> set (trace (final (plantState 1 (\<lambda>i. 400) Plant1 cleared)))"
  by (simp add: plantState_def run_defs)

text \<open>
  C4, amended: whenever the processing of a station returns, its log ends with a dose
  whose \<open>waterTime\<close> is the station's \<open>travelTime\<close> plus \<open>SOAK_TIME\<close>: the station valve
  opens, one tick later the shared-line valve opens, stays open for \<open>waterTime\<close> ticks
  and closes, two ticks later the station valve closes, and the sensor is switched off.
  \<open>travelTime\<close> is not changed.
\<close>

theorem final_dose_duration:
  assumes "plantState fuel adc p s = Returned t"
  shows "ram t = ram s \<and>
    (\<exists>before v1 v2 v3 v4 v5.
       trace t = trace s @ before @
         [Dose p (travelTime (ram s p) + SOAK_TIME), Out2 v1, Wait 1, Out2 v2,
          Wait (nat (sint (travelTime (ram s p) + SOAK_TIME))), Out2 v3, Wait 2, Out2 v4, Out1 v5] \<and>
       bit v2 3 \<and> \<not> bit v3 3 \<and> \<not> bit v4 3)"
proof -
  from plantState_Returned [OF assms]
  have t: "t = deinitializeADC p (waterPlant p (sensed adc p s))" by simp
  let ?x = "P2OUT s OR ucast (activateSolenoid (ram s p))"
  let ?before = "[Sense p, Out1 (P1OUT s OR ucast (enableADC (ram s p))), WaitMs 500,
    Sample (adc (conversions s))]"
  have "trace t = trace s @ ?before @
         [Dose p (travelTime (ram s p) + SOAK_TIME), Out2 ?x, Wait 1, Out2 (?x OR 8),
          Wait (nat (sint (travelTime (ram s p) + SOAK_TIME))), Out2 ((?x OR 8) AND 0xF7), Wait 2,
          Out2 (((?x OR 8) AND 0xF7) AND ucast (NOT (activateSolenoid (ram s p)))),
          Out1 ((P1OUT s OR ucast (enableADC (ram s p))) AND ucast (NOT (enableADC (ram s p))))]"
    unfolding t by (simp add: P2_masks)
  moreover have "bit (?x OR 8) 3" "\<not> bit ((?x OR 8) AND 0xF7) 3"
    "\<not> bit (((?x OR 8) AND 0xF7) AND ucast (NOT (activateSolenoid (ram s p)))) 3"
    by (simp_all add: bit_or_iff bit_and_iff)
  moreover have "ram t = ram s" unfolding t by simp
  ultimately show ?thesis by blast
qed

theorem final_dose_duration_witness:
  "\<exists>t. plantState 1 (\<lambda>i. 400) Plant1 cleared = Returned t \<and> ram t = ram cleared \<and>
     (\<exists>before v1 v2 v3 v4 v5.
       trace t = trace cleared @ before @
         [Dose Plant1 3, Out2 v1, Wait 1, Out2 v2, Wait 3, Out2 v3, Wait 2, Out2 v4, Out1 v5])"
proof -
  have "\<exists>t. plantState 1 (\<lambda>i. 400) Plant1 cleared = Returned t"
    by (simp add: plantState_def run_defs)
  then obtain t where t: "plantState 1 (\<lambda>i. 400) Plant1 cleared = Returned t" ..
  have "travelTime (ram cleared Plant1) + SOAK_TIME = 3"
    "nat (sint (travelTime (ram cleared Plant1) + SOAK_TIME)) = 3"
    by (simp_all add: cleared_def plant1_def hw_defs)
  with final_dose_duration [OF t] t show ?thesis by (simp only:) blast
qed


text \<open>
  C6, as stated: a station read wet gets exactly one dose, of the length of its
  \<open>travelTime\<close>, so of length 0 on the first run. It fails in the length: the second
  station, read wet at 400 and never calibrated, gets one dose, with \<open>waterTime\<close> 3.
\<close>

theorem wet_station_dose_counterexample:
  "MOISTURE_MIN \<le>s 400 \<and> travelTime (ram cleared Plant2) = 0 \<and>
   filter is_dose (trace (final (plantState 0 (\<lambda>i. 400) Plant2 cleared))) = [Dose Plant2 3] \<and>
   filter is_dose (trace (final (plantState 0 (\<lambda>i. 400) Plant2 cleared))) \<noteq>
     [Dose Plant2 (travelTime (ram cleared Plant2))]"
  by (simp add: plantState_def run_defs)

text \<open>
  C6, amended: if the sample that \<open>plantState\<close> reads for a station is not below
  \<open>MOISTURE_MIN\<close>, then \<open>plantState\<close> returns, \<open>preWaterPlant\<close> is not called and
  exactly one dose is given; the dose is computed from the \<open>travelTime\<close> the station
  had before, which is left as it was (0 as long as it has its initial value), and its
  \<open>waterTime\<close> is that \<open>travelTime\<close> plus \<open>SOAK_TIME\<close>.
\<close>

theorem wet_station_single_dose:
  assumes "MOISTURE_MIN \<le>s adc (conversions s)"
  shows "\<exists>t tr. plantState fuel adc p s = Returned t \<and> ram t = ram s \<and>
    trace t = trace s @ tr \<and> (\<forall>q. Calibrate q \<notin> set tr) \<and>
    filter is_dose tr = [Dose p (travelTime (ram s p) + SOAK_TIME)]"
proof -
  from assms have wet: "\<not> adc (conversions s) <s MOISTURE_MIN"
    by (simp add: signed.not_less)
  let ?t = "deinitializeADC p (waterPlant p (sensed adc p s))"
  let ?x = "P2OUT s OR ucast (activateSolenoid (ram s p))"
  let ?tr = "[Sense p, Out1 (P1OUT s OR ucast (enableADC (ram s p))), WaitMs 500,
    Sample (adc (conversions s)),
    Dose p (travelTime (ram s p) + SOAK_TIME), Out2 ?x, Wait 1, Out2 (?x OR 8),
    Wait (nat (sint (travelTime (ram s p) + SOAK_TIME))), Out2 ((?x OR 8) AND 0xF7), Wait 2,
    Out2 (((?x OR 8) AND 0xF7) AND ucast (NOT (activateSolenoid (ram s p)))),
    Out1 ((P1OUT s OR ucast (enableADC (ram s p))) AND ucast (NOT (enableADC (ram s p))))]"
  have "plantState fuel adc p s = Returned ?t" using wet by (rule plantState_wet)
  moreover have "ram ?t = ram s" by simp
  moreover have "trace ?t = trace s @ ?tr" by (simp add: P2_masks)
  moreover have "\<forall>q. Calibrate q \<notin> set ?tr" by simp
  moreover have "filter is_dose ?tr = [Dose p (travelTime (ram s p) + SOAK_TIME)]" by simp
  ultimately show ?thesis by blast
qed

theorem wet_station_single_dose_witness:
  "MOISTURE_MIN \<le>s 400 \<and>
   (\<exists>t tr. plantState 0 (\<lambda>i. 400) Plant3 cleared = Returned t \<and> ram t = ram cleared \<and>
      trace t = trace cleared @ tr \<and> (\<forall>q. Calibrate q \<notin> set tr) \<and>
      filter is_dose tr = [Dose Plant3 (travelTime (ram cleared Plant3) + SOAK_TIME)])"
proof -
  have h: "MOISTURE_MIN \<le>s (\<lambda>i. 400) (conversions cleared)" by (simp add: hw_defs)
  from wet_station_single_dose [of "\<lambda>i. 400" cleared 0 Plant3, OF h] h show ?thesis by simp
qed

text \<open>
  C2 on the code. Station 1 is dry (150) and its dryness reaches the wet threshold at
  step 3 of the calibration (700 from then on). The loop does not stop there: it runs
  five passes and the run then enters the alarm loop. With any bound on the loop
  passes, \<open>plantState\<close> does not return, \<open>travelTime\<close> is still 0 and no dose is given.
\<close>

theorem calibration_scenario_A:
  "(\<exists>st. plantState 5 (\<lambda>i. if i < 4 then 150 else 700) Plant1 cleared = Unfinished AlarmLoop st \<and>
      conversions st = 7) \<and>
   (\<forall>fuel. \<exists>pl st. plantState fuel (\<lambda>i. if i < 4 then 150 else 700) Plant1 cleared = Unfinished pl st \<and>
      travelTime (ram st Plant1) = 0 \<and> filter is_dose (trace st) = [])"
proof
  show "\<exists>st. plantState 5 (\<lambda>i. if i < 4 then 150 else 700) Plant1 cleared = Unfinished AlarmLoop st \<and>
      conversions st = 7"
    by (simp add: plantState_def preWaterPlant_def run_defs)
next
  let ?A = "\<lambda>i::nat. if i < 4 then 150 else 700 :: cint"
  have dry: "?A (conversions cleared) <s MOISTURE_MIN" by (simp add: cleared_def hw_defs)
  show "\<forall>fuel. \<exists>pl st. plantState fuel ?A Plant1 cleared = Unfinished pl st \<and>
      travelTime (ram st Plant1) = 0 \<and> filter is_dose (trace st) = []"
  proof
    fix fuel
    from dry dry_station_stuck [where adc = ?A and s = cleared and fuel = fuel and p = Plant1] obtain pl st tr where
      "plantState fuel ?A Plant1 cleared = Unfinished pl st" "ram st = ram cleared"
      "trace st = trace cleared @ tr" "filter is_dose tr = []" by blast
    then show "\<exists>pl st. plantState fuel ?A Plant1 cleared = Unfinished pl st \<and>
      travelTime (ram st Plant1) = 0 \<and> filter is_dose (trace st) = []"
      by (simp add: cleared_def plant1_def)
  qed
qed

text \<open>
  C5 on the code. Station 2 is read dry (150) once and wet (700) ever after.
  \<open>preWaterPlant\<close> is called, and the run never leaves it: with any bound on the
  loop passes \<open>plantState\<close> does not return, no 60-tick wait is made and no dose is
  given; after five passes the run is in the alarm loop.
\<close>

theorem dry_path_never_doses:
  "(\<exists>st. plantState 5 (\<lambda>i. if i < 1 then 150 else 700) Plant2 cleared = Unfinished AlarmLoop st) \<and>
   (\<forall>fuel. \<exists>pl st. plantState fuel (\<lambda>i. if i < 1 then 150 else 700) Plant2 cleared = Unfinished pl st \<and>
      Calibrate Plant2 \<in> set (trace st) \<and> Wait 60 \<notin> set (trace st) \<and>
      filter is_dose (trace st) = [])"
proof
  show "\<exists>st. plantState 5 (\<lambda>i. if i < 1 then 150 else 700) Plant2 cleared = Unfinished AlarmLoop st"
    by (simp add: plantState_def preWaterPlant_def run_defs)
next
  let ?A = "\<lambda>i::nat. if i < 1 then 150 else 700 :: cint"
  have dry: "?A (conversions cleared) <s MOISTURE_MIN" by (simp add: cleared_def hw_defs)
  show "\<forall>fuel. \<exists>pl st. plantState fuel ?A Plant2 cleared = Unfinished pl st \<and>
      Calibrate Plant2 \<in> set (trace st) \<and> Wait 60 \<notin> set (trace st) \<and>
      filter is_dose (trace st) = []"
  proof
    fix fuel
    from dry dry_station_stuck [where adc = ?A and s = cleared and fuel = fuel and p = Plant2] obtain pl st tr where
      "plantState fuel ?A Plant2 cleared = Unfinished pl st"
      "trace st = trace cleared @ tr" "filter is_dose tr = []" "Wait 60 \<notin> set tr"
      "Calibrate Plant2 \<in> set tr" by blast
    then show "\<exists>pl st. plantState fuel ?A Plant2 cleared = Unfinished pl st \<and>
      Calibrate Plant2 \<in> set (trace st) \<and> Wait 60 \<notin> set (trace st) \<and>
      filter is_dose (trace st) = []"
      by (simp add: cleared_def)
  qed
qed


lemma cal_loop_running:
  assumes "cal_loop n adc s m c = Unfinished CalibrationLoop st"
  shows "(\<forall>e\<in>set (trace st). e \<in> set (trace s) \<or> e \<noteq> Alarm) \<and>
    (conversions st \<noteq> conversions s \<longrightarrow> P2OUT st = P2OUT s OR ucast BIT3)"
proof -
  let ?Q = "\<lambda>t. (\<forall>e\<in>set (trace t). e \<in> set (trace s) \<or> e \<noteq> Alarm) \<and>
    (conversions t = conversions s \<and> P2OUT t = P2OUT s \<or>
     conversions s < conversions t \<and> P2OUT t = P2OUT s OR ucast BIT3)"
  have "?Q (loop_final (cal_loop n adc s m c))"
  proof (rule cal_loop_invariant [where Q = ?Q])
    show "?Q s" by simp
  next
    fix t :: mcu assume "?Q t"
    then show "?Q (cal_pass adc t)" by auto
  qed
  with assms show ?thesis by auto
qed

text \<open>
  C3 on the code. Station 3 is dry and its sensor reads 150 for ever. The step counter
  passes \<open>MAX_TRAVEL\<close>, but the run never enters the alarm loop: however many passes
  are allowed, it is still in the calibration loop, having taken one sample per pass,
  with no alarm in the log and, after the first pass, with the station valve and the
  shared-line valve open.
\<close>

theorem never_wet_never_alarms:
  "\<forall>fuel. \<exists>st. plantState fuel (\<lambda>i. 150) Plant3 cleared = Unfinished CalibrationLoop st \<and>
     conversions st = fuel + 2 \<and> Alarm \<notin> set (trace st) \<and> P2OUT st = (if fuel = 0 then 4 else 12)"
proof
  fix fuel
  let ?A = "\<lambda>i::nat. 150 :: cint"
  let ?s2 = "sensed ?A Plant3 cleared"
  let ?s3 = "pre_start ?A Plant3 ?s2"
  have dry: "?A (conversions cleared) <s MOISTURE_MIN" by (simp add: hw_defs)
  have ps: "plantState fuel ?A Plant3 cleared = preWaterPlant fuel ?A Plant3 ?s2"
    using dry by (rule plantState_dry)
  have "\<forall>j\<le>fuel. continues ?A ?s3 (?A (conversions ?s2)) 0 j"
    by (simp add: continues_def sampled_def hw_defs)
  from cal_loop_Unfinished [OF this] obtain st where
    st: "cal_loop fuel ?A ?s3 (?A (conversions ?s2)) 0 = Unfinished CalibrationLoop st"
      "conversions st = conversions ?s3 + fuel" by blast
  have pre: "preWaterPlant fuel ?A Plant3 ?s2 = Unfinished CalibrationLoop st"
    by (rule preWaterPlant_cases [of fuel ?A Plant3 ?s2]) (use st(1) in simp_all)
  have c: "conversions st = fuel + 2" using st(2) by (simp add: cleared_def)
  have t3: "trace ?s3 = [Sense Plant3, Out1 16, WaitMs 500, Sample 150, Calibrate Plant3,
      Sample 150, Out2 4, Wait 1]" "P2OUT ?s3 = 4"
    by (simp_all add: cleared_def plant3_def hw_defs)
  from cal_loop_running [OF st(1)] have
    r: "\<forall>e\<in>set (trace st). e \<in> set (trace ?s3) \<or> e \<noteq> Alarm"
      "conversions st \<noteq> conversions ?s3 \<longrightarrow> P2OUT st = P2OUT ?s3 OR ucast BIT3" by blast+
  from r(1) have "Alarm \<notin> set (trace st)" unfolding t3 by auto
  moreover have "P2OUT st = (if fuel = 0 then 4 else 12)"
  proof (cases "fuel = 0")
    case True
    with st(1) have "st = ?s3" by (simp add: cal_loop_0 split: if_splits)
    then have "P2OUT st = 4" using t3(2) by (simp only:)
    with True show ?thesis by simp
  next
    case False
    with r(2) st(2) show ?thesis unfolding t3 by (simp add: P2_masks)
  qed
  ultimately show "\<exists>st. plantState fuel ?A Plant3 cleared = Unfinished CalibrationLoop st \<and>
     conversions st = fuel + 2 \<and> Alarm \<notin> set (trace st) \<and> P2OUT st = (if fuel = 0 then 4 else 12)"
    using ps pre c by simp
qed


section \<open>The order of service\<close>

lemma in_order_append:
  "in_order cur shut (xs @ ys) =
     (in_order cur shut xs \<and> in_order (foldl turn cur xs) (foldl shuts shut xs) ys)"
  by (induction xs arbitrary: cur shut) auto

lemma waits_in_order [simp]:
  "in_order cur shut (replicate n (Wait k)) = True"
  "foldl turn cur (replicate n (Wait k)) = cur"
  "foldl shuts shut (replicate n (Wait k)) = shut"
  by (induction n) simp_all

lemma cycle_staged:
  assumes "I0 s"
    and "\<And>t. I0 t \<Longrightarrow>
      (case plantState fuel adc Plant1 t of Returned t' \<Rightarrow> I1 t' | Unfinished pl st \<Rightarrow> Mid st)"
    and "\<And>t. I1 t \<Longrightarrow>
      (case plantState fuel adc Plant2 t of Returned t' \<Rightarrow> I2 t' | Unfinished pl st \<Rightarrow> Mid st)"
    and "\<And>t. I2 t \<Longrightarrow>
      (case plantState fuel adc Plant3 t of Returned t' \<Rightarrow> I3 t' | Unfinished pl st \<Rightarrow> Mid st)"
    and "\<And>t. I3 t \<Longrightarrow> I0 (hdelay 48 t)"
  shows "case cycle fuel adc s of Returned t \<Rightarrow> I0 t | Unfinished pl st \<Rightarrow> Mid st"
proof (cases "plantState fuel adc Plant1 s")
  case (Unfinished pl st)
  with assms(2) [OF assms(1)] show ?thesis by (simp add: cycle_def)
next
  case r1: (Returned s1)
  with assms(2) [OF assms(1)] have i1: "I1 s1" by simp
  show ?thesis
  proof (cases "plantState fuel adc Plant2 s1")
    case (Unfinished pl st)
    with assms(3) [OF i1] r1 show ?thesis by (simp add: cycle_def)
  next
    case r2: (Returned s2)
    with assms(3) [OF i1] have i2: "I2 s2" by simp
    show ?thesis
    proof (cases "plantState fuel adc Plant3 s2")
      case (Unfinished pl st)
      with assms(4) [OF i2] r1 r2 show ?thesis by (simp add: cycle_def)
    next
      case r3: (Returned s3)
      with assms(4) [OF i2] have "I3 s3" by simp
      then have "I0 (hdelay 48 s3)" by (rule assms(5))
      with r1 r2 r3 show ?thesis by (simp add: cycle_def)
    qed
  qed
qed

lemma main_loop_staged:
  assumes "I0 s"
    and st1: "\<And>t. I0 t \<Longrightarrow>
      (case plantState fuel adc Plant1 t of Returned t' \<Rightarrow> I1 t' | Unfinished pl st \<Rightarrow> Mid st)"
    and st2: "\<And>t. I1 t \<Longrightarrow>
      (case plantState fuel adc Plant2 t of Returned t' \<Rightarrow> I2 t' | Unfinished pl st \<Rightarrow> Mid st)"
    and st3: "\<And>t. I2 t \<Longrightarrow>
      (case plantState fuel adc Plant3 t of Returned t' \<Rightarrow> I3 t' | Unfinished pl st \<Rightarrow> Mid st)"
    and sleep: "\<And>t. I3 t \<Longrightarrow> I0 (hdelay 48 t)"
    and weaken: "\<And>t. I0 t \<Longrightarrow> Mid t"
  shows "Mid (final (main_loop n fuel adc s))"
  using \<open>I0 s\<close>
proof (induction n arbitrary: s)
  case 0
  then show ?case by (simp add: weaken)
next
  case (Suc n)
  have c: "case cycle fuel adc s of Returned t \<Rightarrow> I0 t | Unfinished pl st \<Rightarrow> Mid st"
    using Suc.prems st1 st2 st3 sleep
    by (rule cycle_staged [where ?I0.0 = I0 and ?I1.0 = I1 and ?I2.0 = I2 and ?I3.0 = I3])
  show ?case
  proof (cases "cycle fuel adc s")
    case (Returned s')
    with c have "I0 s'" by simp
    from Suc.IH [OF this] Returned show ?thesis by simp
  next
    case (Unfinished pl st)
    with c show ?thesis by simp
  qed
qed


lemma service_extend:
  assumes "service s cur True t" and "trace u = trace t @ es" and "in_order cur True es"
    and "shut \<longrightarrow> foldl shuts True es \<and> valves_closed (P2OUT u)"
  shows "service s (foldl turn cur es) shut u"
proof -
  from assms(1) obtain tr where tr: "trace t = trace s @ tr" "in_order None False tr"
    "foldl turn None tr = cur" "foldl shuts False tr" by (auto simp: service_def)
  have "trace u = trace s @ (tr @ es)" using tr(1) assms(2) by simp
  moreover have "in_order None False (tr @ es)" using tr assms(3) by (simp add: in_order_append)
  moreover have "foldl turn None (tr @ es) = foldl turn cur es" using tr(3) by simp
  moreover have "shut \<longrightarrow> foldl shuts False (tr @ es) \<and> valves_closed (P2OUT u)"
    using tr(4) assms(4) by simp
  ultimately show ?thesis unfolding service_def by blast
qed

lemma service_continue:
  assumes "service s cur False t" and "trace u = trace t @ es" and "\<And>b. in_order cur b es"
  shows "service s (foldl turn cur es) False u"
proof -
  from assms(1) obtain tr where tr: "trace t = trace s @ tr" "in_order None False tr"
    "foldl turn None tr = cur" by (auto simp: service_def)
  have "trace u = trace s @ (tr @ es)" using tr(1) assms(2) by simp
  moreover have "in_order None False (tr @ es)" using tr assms(3) by (simp add: in_order_append)
  moreover have "foldl turn None (tr @ es) = foldl turn cur es" using tr(3) by simp
  ultimately show ?thesis unfolding service_def by blast
qed

lemma service_weaken: "service s cur shut t \<Longrightarrow> service s cur False t"
  by (auto simp: service_def)

lemma solenoid_bits:
  "(ucast (activateSolenoid (plants p)) :: 8 word,
    ucast (NOT (activateSolenoid (plants p))) :: 8 word, valve_bit p)
     \<in> {(1, 0xFE, 0), (2, 0xFD, 1), (4, 0xFB, 2)}"
  by (cases p) (simp_all add: plant1_def plant2_def plant3_def hw_defs)

lemma serve_steps_raw:
  assumes "valves_closed x" and "(sol, nsol, vb) \<in> {(1, 0xFE, 0), (2, 0xFD, 1), (4, 0xFB :: 8 word, 2 :: nat)}"
  shows "set (filter (bit (x OR sol)) [0, 1, 2]) \<subseteq> {vb}"
    and "set (filter (bit ((x OR sol) OR 8)) [0, 1, 2]) \<subseteq> {vb}"
    and "set (filter (bit (((x OR sol) OR 8) AND 0xF7)) [0, 1, 2]) \<subseteq> {vb}"
    and "set (filter (bit ((((x OR sol) OR 8) AND 0xF7) AND nsol)) [0, 1, 2]) \<subseteq> {vb}"
  using assms
  by (auto simp: valves_closed_iff bit_or_iff bit_and_iff)

lemma serve_steps:
  assumes "valves_closed x"
  shows "serves p (x OR ucast (activateSolenoid (plants p)))"
    and "serves p ((x OR ucast (activateSolenoid (plants p))) OR 8)"
    and "serves p (((x OR ucast (activateSolenoid (plants p))) OR 8) AND 0xF7)"
    and "serves p ((((x OR ucast (activateSolenoid (plants p))) OR 8) AND 0xF7)
           AND ucast (NOT (activateSolenoid (plants p))))"
  unfolding serves_def
  by (rule serve_steps_raw [OF assms solenoid_bits])+


lemma service_shut: "service s cur True t \<Longrightarrow> valves_closed (P2OUT t)"
  by (auto simp: service_def)

lemma station_wet_service:
  assumes "ram t = plants" and "service s cur True t" and "follows cur p"
  shows "service s (Some p) True (deinitializeADC p (waterPlant p (sensed adc p t)))"
proof -
  let ?u = "deinitializeADC p (waterPlant p (sensed adc p t))"
  let ?x = "P2OUT t OR ucast (activateSolenoid (plants p))"
  let ?es = "[Sense p, Out1 (P1OUT t OR ucast (enableADC (ram t p))), WaitMs 500,
    Sample (adc (conversions t)),
    Dose p (travelTime (ram t p) + SOAK_TIME), Out2 ?x, Wait 1, Out2 (?x OR 8),
    Wait (nat (sint (travelTime (ram t p) + SOAK_TIME))), Out2 ((?x OR 8) AND 0xF7), Wait 2,
    Out2 (((?x OR 8) AND 0xF7) AND ucast (NOT (activateSolenoid (plants p)))),
    Out1 ((P1OUT t OR ucast (enableADC (ram t p))) AND ucast (NOT (enableADC (ram t p))))]"
  have closed: "valves_closed (P2OUT t)" using assms(2) by (rule service_shut)
  note sv = serve_steps [OF closed, of p]
  note vs = valve_steps [OF closed solenoid_cases [of p]]
  have tr: "trace ?u = trace t @ ?es" using assms(1) by (simp add: P2_masks)
  have io: "in_order cur True ?es" using assms(3) sv by simp
  have sh: "True \<longrightarrow> foldl shuts True ?es \<and> valves_closed (P2OUT ?u)"
    using vs(4) assms(1) by (simp add: P2_masks)
  have "foldl turn cur ?es = Some p" by simp
  with service_extend [OF assms(2) tr io sh] show ?thesis by (simp only:)
qed

lemma station_dry_service:
  assumes "ram t = plants" and "service s cur True t" and "follows cur p"
  shows "\<exists>c. service s c False (final (preWaterPlant fuel adc p (sensed adc p t)))"
proof -
  let ?a = "P2OUT t OR ucast (activateSolenoid (plants p)) :: 8 word"
  let ?Q = "\<lambda>u. service s (Some p) False u \<and> (P2OUT u = ?a \<or> P2OUT u = ?a OR 8)"
  have closed: "valves_closed (P2OUT t)" using assms(2) by (rule service_shut)
  note sv = serve_steps [OF closed, of p]
  have "?Q (final (preWaterPlant fuel adc p (sensed adc p t)))"
  proof (rule preWaterPlant_invariant [where Q = ?Q])
    let ?es = "[Sense p, Out1 (P1OUT t OR ucast (enableADC (ram t p))), WaitMs 500,
      Sample (adc (conversions t)), Calibrate p, Sample (adc (Suc (conversions t))),
      Out2 ?a, Wait 1]"
    have tr: "trace (pre_start adc p (sensed adc p t)) = trace t @ ?es"
      using assms(1) by simp
    have io: "in_order cur True ?es" using assms(3) sv by simp
    have "foldl turn cur ?es = Some p" by simp
    with service_extend [OF assms(2) tr io, of False]
    have "service s (Some p) False (pre_start adc p (sensed adc p t))" by (simp only:) simp
    then show "?Q (pre_start adc p (sensed adc p t))" using assms(1) by simp
  next
    fix u :: mcu assume q: "?Q u"
    let ?es = "[Out2 (P2OUT u OR 8), Wait 1, Sample (adc (conversions u))]"
    have "trace (cal_pass adc u) = trace u @ ?es" by (simp add: P2_masks)
    moreover have "\<And>b. in_order (Some p) b ?es" using q sv by auto
    ultimately have "service s (foldl turn (Some p) ?es) False (cal_pass adc u)"
      using q by (intro service_continue [where t = u]) blast+
    with q show "?Q (cal_pass adc u)" by (auto simp: P2_masks)
  next
    fix u :: mcu assume q: "?Q u"
    have "service s (foldl turn (Some p) [Alarm]) False (emit Alarm u)"
      using q by (intro service_continue [where t = u]) simp_all
    with q show "?Q (emit Alarm u)" by simp
  next
    fix u :: mcu assume q: "?Q u"
    let ?es = "[Out1 (P1OUT u OR ucast (BIT0 + BIT2 + BIT4)), Wait 1,
       Out1 (P1OUT u AND NOT (ucast (BIT0 + BIT2 + BIT4))), Wait 1]"
    have "service s (foldl turn (Some p) ?es) False (alarm_pass u)"
      using q by (intro service_continue [where t = u]) simp_all
    with q show "?Q (alarm_pass u)" by simp
  qed
  then show ?thesis by blast
qed

lemma main_service: "\<exists>cur. service s cur False (final (main fuel adc s))"
proof -
  let ?s0 = "(initialize (disableWatchdog s))\<lparr>ram := plants\<rparr>"
  let ?I = "\<lambda>cur t. ram t = plants \<and> service s cur True t"
  let ?Mid = "\<lambda>t. \<exists>cur. service s cur False t"
  have station: "case plantState fuel adc p t of Returned t' \<Rightarrow> ?I (Some p) t' | Unfinished pl st \<Rightarrow> ?Mid st"
    if "?I cur t" and "follows cur p" for cur p t
  proof (rule plantState_rule)
    show "?I (Some p) (deinitializeADC p (waterPlant p (sensed adc p t)))"
      using that station_wet_service [of t s cur p adc] by simp
  next
    show "?Mid (final (preWaterPlant fuel adc p (sensed adc p t)))"
      using that station_dry_service [of t s cur p fuel adc] by simp
  qed
  have "?Mid (final (main_loop fuel fuel adc ?s0))"
  proof (rule main_loop_staged [where ?I0.0 = "?I None" and ?I1.0 = "?I (Some Plant1)"
        and ?I2.0 = "?I (Some Plant2)" and ?I3.0 = "?I (Some Plant3)" and Mid = ?Mid])
    let ?es = "[Out1 (P1OUT s AND ucast (NOT (BIT0 + BIT2 + BIT4))), Out2 (P2OUT s AND 0xF0)]"
    have "trace ?s0 = trace s @ ?es" by (simp add: P2_masks)
    moreover have "in_order None False ?es" by (simp add: init_closed)
    moreover have "foldl turn None ?es = None" by simp
    moreover have "foldl shuts False ?es \<and> valves_closed (P2OUT ?s0)"
      by (simp add: init_closed P2_masks)
    ultimately have "service s None True ?s0" unfolding service_def by blast
    then show "?I None ?s0" by simp
  next
    fix t :: mcu assume "?I None t"
    then show "case plantState fuel adc Plant1 t of Returned t' \<Rightarrow> ?I (Some Plant1) t'
        | Unfinished pl st \<Rightarrow> ?Mid st"
      by (rule station) simp
  next
    fix t :: mcu assume "?I (Some Plant1) t"
    then show "case plantState fuel adc Plant2 t of Returned t' \<Rightarrow> ?I (Some Plant2) t'
        | Unfinished pl st \<Rightarrow> ?Mid st"
      by (rule station) simp
  next
    fix t :: mcu assume "?I (Some Plant2) t"
    then show "case plantState fuel adc Plant3 t of Returned t' \<Rightarrow> ?I (Some Plant3) t'
        | Unfinished pl st \<Rightarrow> ?Mid st"
      by (rule station) simp
  next
    fix t :: mcu assume i: "?I (Some Plant3) t"
    let ?es = "Sleep 48 # replicate 48 (Wait 3600)"
    have tr: "trace (hdelay 48 t) = trace t @ ?es" by simp
    have io: "in_order (Some Plant3) True ?es" by simp
    have sh: "True \<longrightarrow> foldl shuts True ?es \<and> valves_closed (P2OUT (hdelay 48 t))"
      using i service_shut [of s "Some Plant3" t] by simp
    have "foldl turn (Some Plant3) ?es = None" by simp
    with service_extend [OF _ tr io sh] i have "service s None True (hdelay 48 t)"
      by (simp only:)
    with i show "?I None (hdelay 48 t)" by simp
  next
    fix t :: mcu assume "?I None t"
    then show "?Mid t" using service_weaken by blast
  qed
  then show ?thesis by (simp add: main_def Let_def)
qed

lemma cycle_Returned:
  assumes "cycle fuel adc s = Returned t"
  shows "\<exists>s1 s2 s3. plantState fuel adc Plant1 s = Returned s1 \<and>
    plantState fuel adc Plant2 s1 = Returned s2 \<and> plantState fuel adc Plant3 s2 = Returned s3 \<and>
    t = hdelay 48 s3"
  using assms by (auto simp: cycle_def split: outcome.splits)

lemma plantState_schedule:
  assumes "plantState fuel adc p s = Returned t"
  shows "\<exists>tr. trace t = trace s @ tr \<and> filter scheduling tr = [Sense p]"
proof -
  from plantState_Returned [OF assms]
  have t: "t = deinitializeADC p (waterPlant p (sensed adc p s))" by simp
  show ?thesis unfolding t by simp
qed

lemma cycle_schedule:
  assumes "cycle fuel adc s = Returned t"
  shows "\<exists>tr. trace t = trace s @ tr \<and>
    filter scheduling tr = [Sense Plant1, Sense Plant2, Sense Plant3, Sleep 48]"
proof -
  from cycle_Returned [OF assms] obtain s1 s2 s3 where
    r: "plantState fuel adc Plant1 s = Returned s1" "plantState fuel adc Plant2 s1 = Returned s2"
      "plantState fuel adc Plant3 s2 = Returned s3" "t = hdelay 48 s3" by blast
  from plantState_schedule [OF r(1)] obtain t1 where
    t1: "trace s1 = trace s @ t1" "filter scheduling t1 = [Sense Plant1]" by blast
  from plantState_schedule [OF r(2)] obtain t2 where
    t2: "trace s2 = trace s1 @ t2" "filter scheduling t2 = [Sense Plant2]" by blast
  from plantState_schedule [OF r(3)] obtain t3 where
    t3: "trace s3 = trace s2 @ t3" "filter scheduling t3 = [Sense Plant3]" by blast
  let ?tr = "t1 @ t2 @ t3 @ Sleep 48 # replicate 48 (Wait 3600)"
  have "trace t = trace s @ ?tr" using r(4) t1(1) t2(1) t3(1) by simp
  moreover have "filter scheduling ?tr = [Sense Plant1, Sense Plant2, Sense Plant3, Sleep 48]"
    using t1(2) t2(2) t3(2) by simp
  ultimately show ?thesis by blast
qed


text \<open>
  The order in which a run serves the stations. For every sample sequence and every
  start state, what a run of the program logs is in order: \<open>plantState\<close> is entered
  for station 1, then 2, then 3, each time with all valve outputs low, no value written
  to \<open>P2OUT\<close> during a station's service has another station's valve output high, and
  \<open>hdelay 48\<close> is entered once, after station 3, before station 1 is served again. A
  pass of the outer loop that completes has served the three stations in this order
  and then slept for 48 calls of \<open>delay(3600)\<close>.
\<close>

theorem stations_in_order:
  "(\<exists>tr. trace (final (main fuel adc s)) = trace s @ tr \<and> in_order None False tr) \<and>
   (cycle fuel adc u = Returned u' \<longrightarrow>
      (\<exists>tr. trace u' = trace u @ tr \<and>
         filter scheduling tr = [Sense Plant1, Sense Plant2, Sense Plant3, Sleep 48])) \<and>
   elapsed_s (hdelay 48 t) = elapsed_s t + 48 * 3600 \<and>
   trace (hdelay 48 t) = trace t @ Sleep 48 # replicate 48 (Wait 3600)"
proof (intro conjI impI)
  from main_service [of s fuel adc]
  show "\<exists>tr. trace (final (main fuel adc s)) = trace s @ tr \<and> in_order None False tr"
    by (auto simp: service_def)
next
  assume "cycle fuel adc u = Returned u'"
  then show "\<exists>tr. trace u' = trace u @ tr \<and>
         filter scheduling tr = [Sense Plant1, Sense Plant2, Sense Plant3, Sleep 48]"
    by (rule cycle_schedule)
qed simp_all

theorem stations_in_order_witness:
  "in_order None False (trace (final (main 2 (\<lambda>i. 400) cleared))) \<and>
   (\<exists>u'. cycle 2 (\<lambda>i. 400) cleared = Returned u' \<and>
      (\<exists>tr. trace u' = trace cleared @ tr \<and>
         filter scheduling tr = [Sense Plant1, Sense Plant2, Sense Plant3, Sleep 48]))"
proof -
  have "\<exists>u'. cycle 2 (\<lambda>i. 400) cleared = Returned u'"
    by (simp add: cycle_def plantState_def run_defs)
  then obtain u' where u: "cycle 2 (\<lambda>i. 400) cleared = Returned u'" ..
  note inst = stations_in_order [where fuel = 2 and adc = "\<lambda>i. 400" and s = cleared
      and u = cleared and u' = u']
  from inst obtain tr where
    "trace (final (main 2 (\<lambda>i. 400) cleared)) = trace cleared @ tr" "in_order None False tr"
    by blast
  then have "in_order None False (trace (final (main 2 (\<lambda>i. 400) cleared)))"
    by (simp add: cleared_def)
  moreover from inst u have "\<exists>tr. trace u' = trace cleared @ tr \<and>
         filter scheduling tr = [Sense Plant1, Sense Plant2, Sense Plant3, Sleep 48]"
    by blast
  ultimately show ?thesis using u by blast
qed


lemma dry_station_schedule:
  assumes "adc (conversions s) <s MOISTURE_MIN"
  shows "\<exists>pl st tr. plantState fuel adc p s = Unfinished pl st \<and> pl \<noteq> MainLoop \<and>
    trace st = trace s @ tr \<and> filter scheduling tr = [Sense p]"
proof -
  let ?s2 = "sensed adc p s"
  let ?Q = "\<lambda>u. \<exists>tr. trace u = trace s @ tr \<and> filter scheduling tr = [Sense p]"
  have q: "?Q (final (preWaterPlant fuel adc p ?s2))"
    by (rule preWaterPlant_invariant [where Q = ?Q]) auto
  have "\<exists>pl st. preWaterPlant fuel adc p ?s2 = Unfinished pl st \<and> pl \<noteq> MainLoop"
    by (rule preWaterPlant_cases [of fuel adc p ?s2]) simp_all
  then obtain pl st where
    u: "preWaterPlant fuel adc p ?s2 = Unfinished pl st" "pl \<noteq> MainLoop" by blast
  with q assms show ?thesis by (simp add: plantState_dry)
qed

text \<open>
  C8 on the code. Station 1 is read dry (180) and everything after reads wet (650). The
  first pass of the outer loop never completes: whatever bound is put on the loop
  passes, the run is cut off inside \<open>preWaterPlant\<close> for station 1 (after five passes
  of the calibration loop, in the alarm loop), \<open>plantState\<close> has been entered for
  station 1 only, stations 2 and 3 are never served and \<open>hdelay\<close> is never entered.
\<close>

theorem dry_station_blocks_the_round:
  "(\<exists>st. main 5 (\<lambda>i. if i < 1 then 180 else 650) cleared = Unfinished AlarmLoop st) \<and>
   (\<forall>fuel. \<exists>pl st. main (Suc fuel) (\<lambda>i. if i < 1 then 180 else 650) cleared = Unfinished pl st \<and>
      pl \<noteq> MainLoop \<and> filter scheduling (trace st) = [Sense Plant1])"
proof
  show "\<exists>st. main 5 (\<lambda>i. if i < 1 then 180 else 650) cleared = Unfinished AlarmLoop st"
    by (simp add: main_def cycle_def plantState_def preWaterPlant_def run_defs initialize_def
        disableWatchdog_def)
next
  let ?A = "\<lambda>i::nat. if i < 1 then 180 else 650 :: cint"
  let ?s0 = "(initialize (disableWatchdog cleared))\<lparr>ram := plants\<rparr>"
  have dry: "?A (conversions ?s0) <s MOISTURE_MIN"
    by (simp add: initialize_def disableWatchdog_def straight_defs cleared_def hw_defs)
  have t0: "filter scheduling (trace ?s0) = []" by (simp add: cleared_def)
  show "\<forall>fuel. \<exists>pl st. main (Suc fuel) ?A cleared = Unfinished pl st \<and>
      pl \<noteq> MainLoop \<and> filter scheduling (trace st) = [Sense Plant1]"
  proof
    fix fuel
    from dry dry_station_schedule [where adc = ?A and s = ?s0 and fuel = "Suc fuel" and p = Plant1]
    obtain pl st tr where
      r: "plantState (Suc fuel) ?A Plant1 ?s0 = Unfinished pl st" "pl \<noteq> MainLoop"
        "trace st = trace ?s0 @ tr" "filter scheduling tr = [Sense Plant1]" by blast
    from r(1) have "main (Suc fuel) ?A cleared = Unfinished pl st"
      by (simp add: main_def Let_def cycle_def)
    moreover have "filter scheduling (trace st) = [Sense Plant1]"
      using r(3) r(4) t0 by simp
    ultimately show "\<exists>pl st. main (Suc fuel) ?A cleared = Unfinished pl st \<and>
      pl \<noteq> MainLoop \<and> filter scheduling (trace st) = [Sense Plant1]"
      using r(2) by blast
  qed
qed


end
